theory Spec2Isabelle
  imports Main "HOL-Library.Word"
begin

section \<open>CommandLineParser.h: data model\<close>

text \<open>
  The header declares two classes. \<open>CommandLineOption\<close> is a plain value object
  (three strings of identity, a captured value, a default, four flags and a column
  hint); \<open>CommandLineParser\<close> owns a \<open>std::deque\<close> of options, the argument
  vector and the two built-in options. Strings are \<open>std::string\<close> (byte strings),
  modelled as \<open>string\<close>; \<open>size_t\<close> is modelled as a 64-bit word. Member functions
  that mutate \<open>this\<close> return the updated object.
\<close>

datatype HasValue = HasValue_Yes | HasValue_No
datatype Required = Required_Yes | Required_No
datatype Separator = Separator_Yes | Separator_No

type_synonym size_t = "64 word"

record CommandLineOption =
  m_arg :: string
  m_argAlt :: string
  m_desc :: string
  m_value :: string
  m_default :: string
  m_set :: bool
  m_required :: bool
  m_hasValue :: bool
  m_isSeparator :: bool
  m_addSpace :: size_t

text \<open>The seven-argument constructor; \<open>m_value\<close>, \<open>m_set\<close> and \<open>m_addSpace\<close> take
  their in-class initialisers.\<close>

definition CLO :: "string \<Rightarrow> string \<Rightarrow> string \<Rightarrow> string \<Rightarrow> HasValue \<Rightarrow> Required \<Rightarrow> Separator
    \<Rightarrow> CommandLineOption" where
  "CLO arg argAlt desc defaultValue hasValue required separator =
     \<lparr> m_arg = arg, m_argAlt = argAlt, m_desc = desc, m_value = [],
       m_default = defaultValue, m_set = False,
       m_required = (required = Required_Yes),
       m_hasValue = (hasValue = HasValue_Yes),
       m_isSeparator = (separator = Separator_Yes),
       m_addSpace = 0 \<rparr>"

text \<open>The constructor taking a default value (the option then has a value), and the
  constructor without a default.\<close>

definition CLO_default :: "string \<Rightarrow> string \<Rightarrow> string \<Rightarrow> string \<Rightarrow> Required \<Rightarrow> CommandLineOption" where
  "CLO_default arg argAlt desc defaultValue required =
     CLO arg argAlt desc defaultValue HasValue_Yes required Separator_No"

definition CLO_plain :: "string \<Rightarrow> string \<Rightarrow> string \<Rightarrow> HasValue \<Rightarrow> Required \<Rightarrow> CommandLineOption" where
  "CLO_plain arg argAlt desc hasValue required =
     CLO arg argAlt desc [] hasValue required Separator_No"

subsection \<open>Matching a token\<close>

text \<open>\<open>std::isspace\<close> in the classic locale, which is what \<open>operator>>\<close> skips and
  stops at.\<close>

definition isspace :: "char \<Rightarrow> bool" where
  "isspace c = (c = CHR '' '' \<or> c = CHR 0x09 \<or> c = CHR 0x0A \<or> c = CHR 0x0B
                \<or> c = CHR 0x0C \<or> c = CHR 0x0D)"

text \<open>\<open>std::stringstream ss(m_argAlt); ss >> argAltArg\<close>: leading white space is
  skipped, then characters are taken up to the next white space or the end. When
  nothing can be extracted the target keeps its initial value, the empty string.\<close>

definition extract_word :: "string \<Rightarrow> string" where
  "extract_word s = takeWhile (\<lambda>c. \<not> isspace c) (dropWhile isspace s)"

text \<open>\<open>check\<close> returns its result together with the updated option.\<close>

definition check :: "CommandLineOption \<Rightarrow> string \<Rightarrow> bool \<times> CommandLineOption" where
  "check opt arg =
     (if m_set opt then (False, opt)
      else
        let argAltArg = extract_word (m_argAlt opt);
            opt1 = (if m_arg opt \<noteq> [] then opt\<lparr>m_set := (m_arg opt = arg)\<rparr> else opt);
            opt2 = (if \<not> m_set opt1 \<and> argAltArg \<noteq> []
                    then opt1\<lparr>m_set := (argAltArg = arg)\<rparr> else opt1)
        in (m_set opt2, opt2))"

definition isSet_opt :: "CommandLineOption \<Rightarrow> bool" where
  "isSet_opt opt = (m_set opt \<or> \<not> (m_default opt = []))"

definition setValue :: "CommandLineOption \<Rightarrow> string \<Rightarrow> CommandLineOption" where
  "setValue opt v = opt\<lparr>m_value := v\<rparr>"

definition getValue_opt :: "CommandLineOption \<Rightarrow> string" where
  "getValue_opt opt = (if m_set opt then m_value opt else m_default opt)"

definition isRequired :: "CommandLineOption \<Rightarrow> bool" where
  "isRequired opt = m_required opt"

definition hasValue :: "CommandLineOption \<Rightarrow> bool" where
  "hasValue opt = m_hasValue opt"

definition setSpaceAdd :: "CommandLineOption \<Rightarrow> size_t \<Rightarrow> CommandLineOption" where
  "setSpaceAdd opt spaceAdd = opt\<lparr>m_addSpace := spaceAdd\<rparr>"

text \<open>\<open>operator==\<close>: the address test is subsumed by the comparison of the three
  strings.\<close>

definition eq_option :: "CommandLineOption \<Rightarrow> CommandLineOption \<Rightarrow> bool" where
  "eq_option lhs rhs =
     (m_arg lhs = m_arg rhs \<and> m_argAlt lhs = m_argAlt rhs \<and> m_desc lhs = m_desc rhs)"

definition getArgsLength :: "CommandLineOption \<Rightarrow> size_t" where
  "getArgsLength opt =
     (if m_isSeparator opt then 0
      else of_nat (length (m_arg opt @ '', '' @ m_argAlt opt)))"

text \<open>Successive \<open>check\<close> calls on one instance, as an argument scan issues them;
  the results are collected in call order.\<close>

fun check_all :: "CommandLineOption \<Rightarrow> string list \<Rightarrow> bool list \<times> CommandLineOption" where
  "check_all opt [] = ([], opt)"
| "check_all opt (t # ts) =
     (let (r, opt') = check opt t; (rs, opt'') = check_all opt' ts in (r # rs, opt''))"


section \<open>The parser\<close>

text \<open>
  The parser holds the options in declaration order, the argument vector (with
  \<open>m_argc\<close> its number of entries, as \<open>main\<close> receives them) and the two built-in
  options. The two output streams the parser writes to are part of the state.
\<close>

record CommandLineParser =
  m_options :: "CommandLineOption list"
  m_argv :: "string list"
  m_programName :: string
  m_programVersion :: string
  m_helpOpt :: CommandLineOption
  m_verOpt :: CommandLineOption
  cout :: string
  cerr :: string

definition m_argc :: "CommandLineParser \<Rightarrow> nat" where
  "m_argc p = length (m_argv p)"

definition CommandLineParser :: "string list \<Rightarrow> string \<Rightarrow> string \<Rightarrow> CommandLineParser" where
  "CommandLineParser argv programName programVersion =
     \<lparr> m_options = [], m_argv = argv,
       m_programName = programName, m_programVersion = programVersion,
       m_helpOpt = CLO_plain ''-h'' ''--help'' ''Displays Help'' HasValue_No Required_No,
       m_verOpt = CLO_plain ''-v'' ''--version'' ''Print the version'' HasValue_No Required_No,
       cout = [], cerr = [] \<rparr>"

definition addVersionOption :: "CommandLineParser \<Rightarrow> CommandLineParser" where
  "addVersionOption p = p\<lparr>m_options := m_options p @ [m_verOpt p]\<rparr>"

definition addVersionOption_with :: "CommandLineParser \<Rightarrow> CommandLineOption \<Rightarrow> CommandLineParser" where
  "addVersionOption_with p versionOpt = addVersionOption (p\<lparr>m_verOpt := versionOpt\<rparr>)"

definition addOption :: "CommandLineParser \<Rightarrow> CommandLineOption \<Rightarrow> CommandLineParser" where
  "addOption p opt = p\<lparr>m_options := m_options p @ [opt]\<rparr>"

definition separator :: CommandLineOption where
  "separator = CLO [] [] [] [] HasValue_No Required_No Separator_Yes"

definition addSeparator :: "CommandLineParser \<Rightarrow> CommandLineParser" where
  "addSeparator p = p\<lparr>m_options := m_options p @ [separator]\<rparr>"

definition addHelpOption :: "CommandLineParser \<Rightarrow> CommandLineParser" where
  "addHelpOption p = p\<lparr>m_options := m_helpOpt p # m_options p\<rparr>"

subsection \<open>Queries by declaration\<close>

text \<open>\<open>std::find\<close> with \<open>operator==\<close>: the first element equal to \<open>opt\<close>, if any.\<close>

definition find_option :: "CommandLineOption list \<Rightarrow> CommandLineOption \<Rightarrow> CommandLineOption option" where
  "find_option opts opt = find (\<lambda>x. eq_option x opt) opts"

definition isSet :: "CommandLineParser \<Rightarrow> CommandLineOption \<Rightarrow> bool" where
  "isSet p opt =
     (case find_option (m_options p) opt of None \<Rightarrow> False | Some result \<Rightarrow> isSet_opt result)"

definition getValue :: "CommandLineParser \<Rightarrow> CommandLineOption \<Rightarrow> string" where
  "getValue p opt =
     (case find_option (m_options p) opt of None \<Rightarrow> [] | Some result \<Rightarrow> getValue_opt result)"

text \<open>\<open>std::getline(stream, item, delim)\<close> on the unread rest of the stream: it
  fails when nothing is left to read; otherwise it takes the characters before the
  next delimiter and discards that delimiter.\<close>

definition getline :: "string \<Rightarrow> char \<Rightarrow> (string \<times> string) option" where
  "getline stream delim =
     (if stream = [] then None
      else let item = takeWhile (\<lambda>c. c \<noteq> delim) stream
           in Some (item, drop (Suc (length item)) stream))"

function splitString_loop :: "string \<Rightarrow> char \<Rightarrow> string list \<Rightarrow> string list" where
  "splitString_loop stream delim split =
     (case getline stream delim of
        None \<Rightarrow> split
      | Some (item, rest) \<Rightarrow> splitString_loop rest delim (split @ [item]))"
  by pat_completeness auto
termination
  by (relation "measure (\<lambda>(stream, delim, split). length stream)")
     (auto simp: getline_def Let_def split: if_splits)

definition splitString :: "string \<Rightarrow> string \<Rightarrow> string list" where
  "splitString s delimiter =
     (let delim = (case delimiter of [] \<Rightarrow> CHR '','' | c # _ \<Rightarrow> c)
      in splitString_loop s delim [])"

definition getValueList :: "CommandLineParser \<Rightarrow> CommandLineOption \<Rightarrow> string \<Rightarrow> string list" where
  "getValueList p opt delim =
     (case find_option (m_options p) opt of
        None \<Rightarrow> []
      | Some result \<Rightarrow> splitString (getValue_opt result) delim)"

subsection \<open>The argument scan\<close>

definition endl :: string where
  "endl = [CHR 0x0A]"

definition value_missing_msg :: "CommandLineOption \<Rightarrow> string" where
  "value_missing_msg option =
     ''ERROR: Option ('' @ m_arg option @ '' / '' @ m_argAlt option
       @ '') requires a value, but none was provided, exiting ...'' @ endl"

definition required_missing_msg :: "CommandLineOption \<Rightarrow> string" where
  "required_missing_msg option =
     ''ERROR: Required option ('' @ m_arg option @ '' / '' @ m_argAlt option
       @ '') not set, exiting ...'' @ endl"

text \<open>An option the loop has finished with stays in the deque in front of the ones
  still to come.\<close>

definition processed :: "CommandLineOption \<Rightarrow> string + (CommandLineOption list \<times> nat \<times> bool)
    \<Rightarrow> string + (CommandLineOption list \<times> nat \<times> bool)" where
  "processed option r =
     (case r of Inl e \<Rightarrow> Inl e | Inr (rest, i, anyMatch) \<Rightarrow> Inr (option # rest, i, anyMatch))"

text \<open>The inner loop of \<open>parse\<close> over the options, for the token \<open>str\<close> read at the
  current index. It shares \<open>i\<close> and \<open>anyMatch\<close> with the outer loop. \<open>Inl\<close> is the
  \<open>exit(-1)\<close> of a missing value and carries what was written to \<open>std::cerr\<close>.\<close>

fun check_options :: "string list \<Rightarrow> string \<Rightarrow> CommandLineOption list \<Rightarrow> nat \<Rightarrow> bool
    \<Rightarrow> string + (CommandLineOption list \<times> nat \<times> bool)" where
  "check_options argv str [] i anyMatch = Inr ([], i, anyMatch)"
| "check_options argv str (option # rest) i anyMatch =
     (let (matched, option1) = check option str in
      if matched then
        if hasValue option1 then
          let i1 = i + 1 in
          if i1 \<ge> length argv then Inl (value_missing_msg option1)
          else processed (setValue option1 (argv ! i1)) (check_options argv str rest i1 True)
        else processed option1 (check_options argv str rest i True)
      else processed option1 (check_options argv str rest i anyMatch))"

text \<open>The outer loop \<open>for (int i = 1; i < m_argc; i++)\<close>, entered at index \<open>i\<close>.
  The index and \<open>m_argc\<close> are \<open>int\<close> in the source; they count entries of \<open>m_argv\<close>
  and are natural numbers here.\<close>

function scan_args :: "string list \<Rightarrow> CommandLineOption list \<Rightarrow> nat \<Rightarrow> bool
    \<Rightarrow> string + (CommandLineOption list \<times> bool)" where
  "scan_args argv opts i anyMatch =
     (if i < length argv then
        (case check_options argv (argv ! i) opts i anyMatch of
           Inl e \<Rightarrow> Inl e
         | Inr (opts', i', anyMatch') \<Rightarrow> scan_args argv opts' (i' + 1) anyMatch')
      else Inr (opts, anyMatch))"
  by pat_completeness auto
termination
proof (relation "measure (\<lambda>(argv, opts, i, anyMatch). length argv - i)")
  show "wf (measure (\<lambda>(argv, opts, i, anyMatch). length argv - i))"
    by simp
next
  fix argv :: "string list" and opts :: "CommandLineOption list" and i :: nat
    and anyMatch :: bool and x2 opts' y i' anyMatch'
  assume less: "i < length argv"
    and res: "check_options argv (argv ! i) opts i anyMatch = Inr x2"
    and x2: "(opts', y) = x2" and y: "(i', anyMatch') = y"
  have index: "i0 \<le> i1" if "check_options argv str os i0 am = Inr (os', i1, am')"
    for str os i0 am os' i1 am'
    using that
  proof (induction os arbitrary: i0 am os')
    case Nil
    then show ?case by simp
  next
    case (Cons option rest)
    then show ?case
      by (fastforce simp: processed_def Let_def split: prod.splits if_splits sum.splits)
  qed
  from res x2 y have "i \<le> i'"
    using index by metis
  with less show "((argv, opts', i' + 1, anyMatch'), (argv, opts, i, anyMatch))
      \<in> measure (\<lambda>(argv, opts, i, anyMatch). length argv - i)"
    by simp
qed


subsection \<open>Rendering an option\<close>

definition maxLineLen :: size_t where
  "maxLineLen = 80"

definition spaceArgDesc :: size_t where
  "spaceArgDesc = 4"

definition npos :: size_t where
  "npos = - 1"

fun last_index :: "char \<Rightarrow> string \<Rightarrow> nat option" where
  "last_index ch [] = None"
| "last_index ch (c # cs) =
     (case last_index ch cs of
        Some k \<Rightarrow> Some (Suc k)
      | None \<Rightarrow> if c = ch then Some 0 else None)"

text \<open>\<open>s.find_last_of(ch, pos)\<close>: the last position of \<open>ch\<close> among the positions
  \<open>0 .. min pos (size - 1)\<close>, or \<open>npos\<close>.\<close>

definition find_last_of :: "string \<Rightarrow> char \<Rightarrow> size_t \<Rightarrow> size_t" where
  "find_last_of s ch pos =
     (case last_index ch (take (Suc (unat pos)) s) of
        None \<Rightarrow> npos
      | Some k \<Rightarrow> of_nat k)"

text \<open>\<open>std::setw\<close> takes an \<open>int\<close>; a width that is not positive pads nothing.
  Output of a string under \<open>std::left\<close> with fill character space appends the
  padding.\<close>

definition setw :: "size_t \<Rightarrow> nat" where
  "setw n = (let w = sint (ucast n :: 32 word) in if 0 < w then nat w else 0)"

definition put_left :: "nat \<Rightarrow> string \<Rightarrow> string" where
  "put_left w s = s @ replicate (w - length s) CHR '' ''"

text \<open>The \<open>while\<close> loop of \<open>operator<<\<close> that breaks the description into lines.
  Nothing bounds the number of its iterations, so it is a partial function: \<open>None\<close>
  is a loop that never ends. \<open>desc.substr(spacePos + 1)\<close> is within the string for
  every result of \<open>find_last_of\<close> (\<open>npos + 1\<close> is \<open>0\<close>).\<close>

partial_function (option) wrap_desc :: "size_t \<Rightarrow> string \<Rightarrow> string \<Rightarrow> (string \<times> string) option" where
  "wrap_desc addSpace desc os =
     (if of_nat (length desc) + spaceArgDesc + addSpace > maxLineLen then
        (let spacePos = find_last_of desc CHR '' '' (maxLineLen - (spaceArgDesc + addSpace))
         in wrap_desc addSpace (drop (unat (spacePos + 1)) desc)
              (os @ take (unat spacePos) desc @ endl
                  @ put_left (setw (spaceArgDesc + addSpace)) []))
      else Some (desc, os))"

declare wrap_desc.simps [code]

text \<open>\<open>operator<<(std::ostream&, const CommandLineOption&)\<close>, on the text \<open>os\<close>
  written so far.\<close>

definition put_option :: "CommandLineOption \<Rightarrow> string \<Rightarrow> string option" where
  "put_option clo os =
     (if m_isSeparator clo then Some (os @ endl)
      else
        let argStr = m_arg clo @ '', '' @ m_argAlt clo;
            os1 = os @ put_left (setw (m_addSpace clo)) argStr;
            os2 = os1 @ put_left (setw spaceArgDesc) [];
            desc0 = m_desc clo;
            desc1 = (if m_required clo then desc0 @ '' (required)'' else desc0);
            desc2 = (if \<not> (m_default clo = [])
                     then desc1 @ '' DEFAULT: '' @ m_default clo else desc1)
        in case wrap_desc (m_addSpace clo) desc2 os2 of
             None \<Rightarrow> None
           | Some (desc, os3) \<Rightarrow> Some (os3 @ desc @ endl))"

fun put_options :: "CommandLineOption list \<Rightarrow> string \<Rightarrow> string option" where
  "put_options [] os = Some os"
| "put_options (option # rest) os =
     (case put_option option os of
        None \<Rightarrow> None
      | Some os' \<Rightarrow> put_options rest os')"

subsection \<open>Help, version and \<open>parse\<close>\<close>

text \<open>How a call ends: it returns, the process exits with a status (what the two
  streams then hold is kept), or the behaviour is undefined.\<close>

datatype outcome =
    Return CommandLineParser
  | Exit int string string
  | Undefined_behaviour

text \<open>\<open>updateAddSpaces\<close> dereferences the result of \<open>std::max_element\<close>, which is
  the end iterator when there is no option: \<open>None\<close> is that undefined behaviour.\<close>

definition updateAddSpaces :: "CommandLineOption list \<Rightarrow> CommandLineOption list option" where
  "updateAddSpaces opts =
     (case opts of
        [] \<Rightarrow> None
      | first # rest \<Rightarrow>
          let maxLen = fold (\<lambda>b a. if a < b then b else a) (map getArgsLength rest)
                         (getArgsLength first)
          in Some (map (\<lambda>option. setSpaceAdd option maxLen) opts))"

text \<open>\<open>printHelp\<close>. The file name shown in the usage line comes from a call into the
  platform (\<open>basename\<close> or \<open>_splitpath_s\<close> on \<open>m_argv[0]\<close>); its result is the
  parameter \<open>pFileName\<close>. The outer \<open>None\<close> is a rendering that never ends.\<close>

definition printHelp :: "string \<Rightarrow> CommandLineParser \<Rightarrow> outcome option" where
  "printHelp pFileName p =
     (case updateAddSpaces (m_options p) of
        None \<Rightarrow> Some Undefined_behaviour
      | Some opts \<Rightarrow>
          (case put_options opts (cout p @ ''Usage: '' @ pFileName @ '' option'' @ endl @ endl) of
             None \<Rightarrow> None
           | Some os \<Rightarrow> Some (Return (p\<lparr>m_options := opts, cout := os\<rparr>))))"

definition printVersion :: "CommandLineParser \<Rightarrow> CommandLineParser" where
  "printVersion p =
     (let os1 = (if \<not> (m_programName p = []) then cout p @ m_programName p else cout p);
          os2 = (if \<not> (m_programVersion p = [])
                 then (if \<not> (m_programName p = []) then os1 @ '' - '' else os1)
                        @ m_programVersion p
                 else os1)
      in p\<lparr>cout := os2 @ endl\<rparr>)"

text \<open>The last loop of \<open>parse\<close>: one line on \<open>std::cerr\<close> for every required option
  that is not set.\<close>

fun report_required :: "CommandLineOption list \<Rightarrow> string \<Rightarrow> bool \<Rightarrow> string \<times> bool" where
  "report_required [] err allRequiredSet = (err, allRequiredSet)"
| "report_required (option # rest) err allRequiredSet =
     (if isRequired option \<and> \<not> isSet_opt option
      then report_required rest (err @ required_missing_msg option) False
      else report_required rest err allRequiredSet)"

definition parse :: "string \<Rightarrow> bool \<Rightarrow> CommandLineParser \<Rightarrow> outcome option" where
  "parse pFileName requireMatch p =
     (case scan_args (m_argv p) (m_options p) 1 False of
        Inl e \<Rightarrow> Some (Exit (- 1) (cout p) (cerr p @ e))
      | Inr (opts, anyMatch) \<Rightarrow>
          let p1 = p\<lparr>m_options := opts\<rparr> in
          if isSet p1 (m_helpOpt p1) \<or> (\<not> anyMatch \<and> requireMatch) then
            (case printHelp pFileName p1 of
               None \<Rightarrow> None
             | Some (Return p2) \<Rightarrow> Some (Exit 0 (cout p2) (cerr p2))
             | Some r \<Rightarrow> Some r)
          else if isSet p1 (m_verOpt p1) then
            (let p2 = printVersion p1 in Some (Exit 0 (cout p2) (cerr p2)))
          else
            (let (err, allRequiredSet) = report_required opts (cerr p1) True in
             if \<not> allRequiredSet then Some (Exit (- 1) (cout p1) err)
             else Some (Return (p1\<lparr>cerr := err\<rparr>))))"

text \<open>The states in which the outer loop of \<open>parse\<close> reads a token: the index and
  the options as they are when the token at that index is read, in the order of the
  iterations.\<close>

function scan_visits :: "string list \<Rightarrow> CommandLineOption list \<Rightarrow> nat \<Rightarrow> bool
    \<Rightarrow> (nat \<times> CommandLineOption list) list" where
  "scan_visits argv opts i anyMatch =
     (if i < length argv then
        (i, opts) #
        (case check_options argv (argv ! i) opts i anyMatch of
           Inl e \<Rightarrow> []
         | Inr (opts', i', anyMatch') \<Rightarrow> scan_visits argv opts' (i' + 1) anyMatch')
      else [])"
  by pat_completeness auto
termination
proof (relation "measure (\<lambda>(argv, opts, i, anyMatch). length argv - i)")
  show "wf (measure (\<lambda>(argv, opts, i, anyMatch). length argv - i))"
    by simp
next
  fix argv :: "string list" and opts :: "CommandLineOption list" and i :: nat
    and anyMatch :: bool and x2 opts' y i' anyMatch'
  assume less: "i < length argv"
    and res: "check_options argv (argv ! i) opts i anyMatch = Inr x2"
    and x2: "(opts', y) = x2" and y: "(i', anyMatch') = y"
  have index: "i0 \<le> i1" if "check_options argv str os i0 am = Inr (os', i1, am')"
    for str os i0 am os' i1 am'
    using that
  proof (induction os arbitrary: i0 am os')
    case Nil
    then show ?case by simp
  next
    case (Cons option rest)
    then show ?case
      by (fastforce simp: processed_def Let_def split: prod.splits if_splits sum.splits)
  qed
  from res x2 y have "i \<le> i'"
    using index by metis
  with less show "((argv, opts', i' + 1, anyMatch'), (argv, opts, i, anyMatch))
      \<in> measure (\<lambda>(argv, opts, i, anyMatch). length argv - i)"
    by simp
qed


text \<open>Whether an option claims the token and will take the next token as its value.\<close>

definition takes_value :: "string \<Rightarrow> CommandLineOption \<Rightarrow> bool" where
  "takes_value str option = (fst (check option str) \<and> m_hasValue option)"

text \<open>A list with one more element put in at position \<open>n\<close> (at the end when the
  list is shorter): the declarations with a separator added among them.\<close>

definition insert_at :: "nat \<Rightarrow> 'a \<Rightarrow> 'a list \<Rightarrow> 'a list" where
  "insert_at n x xs = take n xs @ x # drop n xs"

subsection \<open>Declarations used as examples\<close>

definition file_option :: CommandLineOption where
  "file_option = CLO_plain ''-f'' ''--file FILE'' ''Input file'' HasValue_Yes Required_Yes"

definition group_option :: CommandLineOption where
  "group_option = CLO_plain ''-g'' ''--group'' ''Group name'' HasValue_Yes Required_No"

text \<open>A parser with the help option, \<open>-f\<close> (value, required) and \<open>-g\<close> (value, not
  required), on a given argument vector.\<close>

definition example_parser :: "string list \<Rightarrow> CommandLineParser" where
  "example_parser argv =
     addOption (addOption (addHelpOption (CommandLineParser argv [] [])) file_option)
       group_option"

definition output_option :: CommandLineOption where
  "output_option = CLO_default ''-o'' ''--out'' ''Output file'' ''out.txt'' Required_No"

text \<open>An option whose description holds a long word without a space (86 characters, a
  link), and a parser that shows it in its help.\<close>

definition url_option :: CommandLineOption where
  "url_option = CLO_plain ''-u'' ''--url''
     ''See https://github.com/fporrmann/CommandLineParser/blob/main/README.md#usage-of-the-parser''
     HasValue_Yes Required_No"

definition url_parser :: "string list \<Rightarrow> CommandLineParser" where
  "url_parser argv = addOption (addHelpOption (CommandLineParser argv [] [])) url_option"

declare scan_args.simps [simp del] scan_visits.simps [simp del] splitString_loop.simps [simp del]


section \<open>Matching one option\<close>

lemma check_result:
  "fst (check opt tok) =
     (\<not> m_set opt \<and> ((m_arg opt \<noteq> [] \<and> tok = m_arg opt)
        \<or> (extract_word (m_argAlt opt) \<noteq> [] \<and> tok = extract_word (m_argAlt opt))))"
  by (auto simp: check_def Let_def)

lemma check_state:
  "snd (check opt tok) = opt\<lparr>m_set := (m_set opt \<or> fst (check opt tok))\<rparr>"
  by (auto simp: check_def Let_def)

lemma check_when_set: "m_set opt \<Longrightarrow> check opt tok = (False, opt)"
  by (simp add: check_def)

lemma check_no_match: "\<not> fst (check opt tok) \<Longrightarrow> check opt tok = (False, opt)"
  using check_state [of opt tok] by (cases "check opt tok") simp

lemma check_match: "fst (check opt tok) \<Longrightarrow> check opt tok = (True, opt\<lparr>m_set := True\<rparr>)"
  using check_state [of opt tok] by (cases "check opt tok") simp

lemma check_set_no_match: "m_set opt \<Longrightarrow> \<not> fst (check opt tok)"
  by (simp add: check_def)

lemma check_all_when_set:
  "m_set opt \<Longrightarrow> filter (\<lambda>r. r) (fst (check_all opt toks)) = [] \<and> snd (check_all opt toks) = opt"
  by (induction toks) (auto simp: check_when_set split: prod.splits)

lemma check_all_at_most_once:
  "length (filter (\<lambda>r. r) (fst (check_all opt toks))) \<le> 1"
proof (induction toks arbitrary: opt)
  case Nil
  then show ?case by simp
next
  case (Cons t ts)
  obtain r opt' where c: "check opt t = (r, opt')"
    by (cases "check opt t")
  obtain rs opt'' where ca: "check_all opt' ts = (rs, opt'')"
    by (cases "check_all opt' ts")
  show ?case
  proof (cases r)
    case True
    with c have "m_set opt'"
      using check_match [of opt t] by simp
    then have "filter (\<lambda>r. r) rs = []"
      using check_all_when_set [of opt' ts] ca by simp
    with c ca True show ?thesis by simp
  next
    case False
    with c ca Cons.IH [of opt'] show ?thesis by simp
  qed
qed

text \<open>What \<open>operator>>\<close> extracts is the first run of characters that are not white
  space: white space before it, and white space or the end of the string after it.\<close>

lemma extract_word_shape:
  "\<exists>ws rest. s = ws @ extract_word s @ rest \<and> (\<forall>c \<in> set ws. isspace c)
     \<and> (\<forall>c \<in> set (extract_word s). \<not> isspace c) \<and> (rest = [] \<or> isspace (hd rest))"
proof -
  let ?d = "dropWhile isspace s"
  have 1: "s = takeWhile isspace s @ ?d" by simp
  have 2: "?d = extract_word s @ dropWhile (\<lambda>c. \<not> isspace c) ?d"
    by (simp add: extract_word_def)
  have 3: "\<forall>c \<in> set (takeWhile isspace s). isspace c"
    by (auto dest: set_takeWhileD)
  have 4: "\<forall>c \<in> set (extract_word s). \<not> isspace c"
    by (auto simp: extract_word_def dest: set_takeWhileD)
  have 5: "dropWhile (\<lambda>c. \<not> isspace c) ?d = []
      \<or> isspace (hd (dropWhile (\<lambda>c. \<not> isspace c) ?d))"
    using hd_dropWhile [of "\<lambda>c. \<not> isspace c" ?d] by auto
  from 1 2 3 4 5 show ?thesis by metis
qed

section \<open>The inner loop over the options\<close>

lemma check_options_Cons:
  "check_options argv str (option # rest) i anyMatch =
     (if fst (check option str) then
        if m_hasValue option then
          if Suc i \<ge> length argv then Inl (value_missing_msg option)
          else processed (option\<lparr>m_set := True, m_value := argv ! Suc i\<rparr>)
                 (check_options argv str rest (Suc i) True)
        else processed (option\<lparr>m_set := True\<rparr>) (check_options argv str rest i True)
      else processed option (check_options argv str rest i anyMatch))"
proof (cases "fst (check option str)")
  case True
  from check_match [OF True] show ?thesis
    by (simp add: hasValue_def setValue_def value_missing_msg_def)
next
  case False
  from check_no_match [OF False] show ?thesis
    by simp
qed

lemma processed_Inr:
  "processed option r = Inr (opts', i', am') \<longleftrightarrow>
     (\<exists>rest'. opts' = option # rest' \<and> r = Inr (rest', i', am'))"
  by (auto simp: processed_def split: sum.splits)

lemma processed_Inl: "processed option r = Inl e \<longleftrightarrow> r = Inl e"
  by (auto simp: processed_def split: sum.splits)

lemma check_options_length:
  "check_options argv str opts i am = Inr (opts', i', am') \<Longrightarrow> length opts' = length opts"
proof (induction opts arbitrary: i am opts')
  case Nil
  then show ?case by simp
next
  case (Cons option rest)
  then show ?case
    unfolding check_options_Cons by (auto simp: processed_Inr split: if_splits)
qed

lemma check_options_index:
  "check_options argv str opts i am = Inr (opts', i', am') \<Longrightarrow> i \<le> i'"
proof (induction opts arbitrary: i am opts')
  case Nil
  then show ?case by simp
next
  case (Cons option rest)
  from Cons.prems obtain rest' i1 am1 where
    "check_options argv str rest i1 am1 = Inr (rest', i', am')" and "i \<le> i1"
    unfolding check_options_Cons by (auto simp: processed_Inr split: if_splits)
  with Cons.IH [of i1 am1 rest'] show ?case by simp
qed

lemma check_options_unmatched:
  "check_options argv str opts i am = Inr (opts', i', am') \<Longrightarrow> k < length opts
     \<Longrightarrow> \<not> fst (check (opts ! k) str) \<Longrightarrow> opts' ! k = opts ! k"
proof (induction opts arbitrary: i am opts' k)
  case Nil
  then show ?case by simp
next
  case (Cons option rest)
  show ?case
  proof (cases k)
    case 0
    with Cons.prems show ?thesis
      unfolding check_options_Cons by (auto simp: processed_Inr split: if_splits)
  next
    case (Suc n)
    with Cons.prems Cons.IH [of _ _ _ n] show ?thesis
      unfolding check_options_Cons by (auto simp: processed_Inr split: if_splits)
  qed
qed

lemma check_options_matched:
  "check_options argv str opts i am = Inr (opts', i', am') \<Longrightarrow> k < length opts
     \<Longrightarrow> fst (check (opts ! k) str)
     \<Longrightarrow> \<exists>v. opts' ! k = (opts ! k)\<lparr>m_set := True, m_value := v\<rparr>"
proof (induction opts arbitrary: i am opts' k)
  case Nil
  then show ?case by simp
next
  case (Cons option rest)
  show ?case
  proof (cases k)
    case 0
    with Cons.prems show ?thesis
      unfolding check_options_Cons
      by (auto simp: processed_Inr split: if_splits intro: exI [of _ "m_value option"])
  next
    case (Suc n)
    with Cons.prems Cons.IH [of _ _ _ n] show ?thesis
      unfolding check_options_Cons by (auto simp: processed_Inr split: if_splits)
  qed
qed

lemma check_options_first_value:
  "check_options argv str opts i am = Inr (opts', i', am') \<Longrightarrow> k < length opts
     \<Longrightarrow> takes_value str (opts ! k)
     \<Longrightarrow> \<forall>j<k. \<not> takes_value str (opts ! j)
     \<Longrightarrow> Suc i < length argv \<and> opts' ! k = (opts ! k)\<lparr>m_set := True, m_value := argv ! Suc i\<rparr>"
proof (induction opts arbitrary: i am opts' k)
  case Nil
  then show ?case by simp
next
  case (Cons option rest)
  show ?case
  proof (cases k)
    case 0
    with Cons.prems show ?thesis
      unfolding check_options_Cons takes_value_def
      by (auto simp: processed_Inr split: if_splits)
  next
    case (Suc n)
    from Cons.prems(4) Suc have no: "\<not> takes_value str option" and
      rest: "\<forall>j<n. \<not> takes_value str (rest ! j)"
      by fastforce+
    from Cons.prems(1) no obtain rest' am1 where
      r: "check_options argv str rest i am1 = Inr (rest', i', am')" and o: "opts' = (if fst (check option str) then option\<lparr>m_set := True\<rparr> else option) # rest'"
      unfolding check_options_Cons takes_value_def
      by (auto simp: processed_Inr split: if_splits)
    from Cons.IH [OF r, of n] Cons.prems(2,3) Suc rest o show ?thesis
      by simp
  qed
qed

lemma check_options_starved:
  "find (takes_value str) opts = Some option \<Longrightarrow> Suc i \<ge> length argv
     \<Longrightarrow> check_options argv str opts i am = Inl (value_missing_msg option)"
proof (induction opts arbitrary: am)
  case Nil
  then show ?case by simp
next
  case (Cons o1 rest)
  show ?case
  proof (cases "takes_value str o1")
    case True
    with Cons.prems have "o1 = option" by simp
    with True Cons.prems(2) show ?thesis
      unfolding check_options_Cons takes_value_def by simp
  next
    case False
    with Cons.prems have f: "find (takes_value str) rest = Some option" by simp
    from False have "check_options argv str (o1 # rest) i am
        = processed (if fst (check o1 str) then o1\<lparr>m_set := True\<rparr> else o1)
            (check_options argv str rest i (am \<or> fst (check o1 str)))"
      unfolding check_options_Cons takes_value_def by simp
    with Cons.IH [OF f Cons.prems(2)] show ?thesis
      by (simp add: processed_Inl)
  qed
qed

lemma check_options_any_match:
  "check_options argv str opts i am = Inr (opts', i', am')
     \<Longrightarrow> am' = (am \<or> (\<exists>option \<in> set opts. fst (check option str)))"
proof (induction opts arbitrary: i am opts')
  case Nil
  then show ?case by simp
next
  case (Cons option rest)
  show ?case
  proof (cases "fst (check option str)")
    case True
    with Cons.prems obtain rest' i1 where "check_options argv str rest i1 True = Inr (rest', i', am')"
      unfolding check_options_Cons by (auto simp: processed_Inr split: if_splits)
    from Cons.IH [OF this] True show ?thesis by simp
  next
    case False
    with Cons.prems obtain rest' where "check_options argv str rest i am = Inr (rest', i', am')"
      unfolding check_options_Cons by (auto simp: processed_Inr split: if_splits)
    from Cons.IH [OF this] False show ?thesis by simp
  qed
qed

section \<open>The outer loop over the tokens\<close>

lemma scan_args_done: "\<not> i < length argv \<Longrightarrow> scan_args argv opts i am = Inr (opts, am)"
  by (simp add: scan_args.simps)

lemma scan_args_exit:
  "i < length argv \<Longrightarrow> check_options argv (argv ! i) opts i am = Inl e
     \<Longrightarrow> scan_args argv opts i am = Inl e"
  by (simp add: scan_args.simps)

lemma scan_args_step:
  "i < length argv \<Longrightarrow> check_options argv (argv ! i) opts i am = Inr (os1, i1, am1)
     \<Longrightarrow> scan_args argv opts i am = scan_args argv os1 (Suc i1) am1"
  by (simp add: scan_args.simps [of argv opts i am])

lemma scan_visits_done: "\<not> i < length argv \<Longrightarrow> scan_visits argv opts i am = []"
  by (simp add: scan_visits.simps)

lemma scan_visits_exit:
  "i < length argv \<Longrightarrow> check_options argv (argv ! i) opts i am = Inl e
     \<Longrightarrow> scan_visits argv opts i am = [(i, opts)]"
  by (simp add: scan_visits.simps)

lemma scan_visits_step:
  "i < length argv \<Longrightarrow> check_options argv (argv ! i) opts i am = Inr (os1, i1, am1)
     \<Longrightarrow> scan_visits argv opts i am = (i, opts) # scan_visits argv os1 (Suc i1) am1"
  by (simp add: scan_visits.simps [of argv opts i am])

lemma scan_args_length:
  "scan_args argv opts i am = Inr (opts', am') \<Longrightarrow> length opts' = length opts"
proof (induction argv opts i am rule: scan_args.induct)
  case (1 argv opts i am)
  show ?case
  proof (cases "i < length argv")
    case False
    with "1.prems" show ?thesis by (simp add: scan_args_done)
  next
    case True
    show ?thesis
    proof (cases "check_options argv (argv ! i) opts i am")
      case (Inl e)
      with True "1.prems" show ?thesis by (simp add: scan_args_exit)
    next
      case (Inr x)
      then obtain os1 i1 am1 where c: "check_options argv (argv ! i) opts i am = Inr (os1, i1, am1)"
        by (cases x) auto
      with True "1.prems" have "scan_args argv os1 (Suc i1) am1 = Inr (opts', am')"
        by (simp add: scan_args_step)
      with "1.IH" [OF True c refl refl] have "length opts' = length os1" by simp
      with check_options_length [OF c] show ?thesis by simp
    qed
  qed
qed

lemma scan_visits_bounds:
  "(j, os) \<in> set (scan_visits argv opts i am)
     \<Longrightarrow> i \<le> j \<and> j < length argv \<and> length os = length opts"
proof (induction argv opts i am rule: scan_visits.induct)
  case (1 argv opts i am)
  show ?case
  proof (cases "i < length argv")
    case False
    with "1.prems" show ?thesis by (simp add: scan_visits_done)
  next
    case True
    show ?thesis
    proof (cases "check_options argv (argv ! i) opts i am")
      case (Inl e)
      with True "1.prems" show ?thesis by (simp add: scan_visits_exit)
    next
      case (Inr x)
      then obtain os1 i1 am1 where c: "check_options argv (argv ! i) opts i am = Inr (os1, i1, am1)"
        by (cases x) auto
      from "1.prems" consider "j = i \<and> os = opts" | "(j, os) \<in> set (scan_visits argv os1 (Suc i1) am1)"
        using True c by (auto simp: scan_visits_step)
      then show ?thesis
      proof cases
        case 1
        with True show ?thesis by simp
      next
        case 2
        with "1.IH" [OF True c refl refl] check_options_length [OF c] check_options_index [OF c]
        show ?thesis by simp
      qed
    qed
  qed
qed

lemma scan_visits_sorted:
  "sorted_wrt (<) (map fst (scan_visits argv opts i am))"
proof (induction argv opts i am rule: scan_visits.induct)
  case (1 argv opts i am)
  show ?case
  proof (cases "i < length argv")
    case False
    then show ?thesis by (simp add: scan_visits_done)
  next
    case True
    show ?thesis
    proof (cases "check_options argv (argv ! i) opts i am")
      case (Inl e)
      with True show ?thesis by (simp add: scan_visits_exit)
    next
      case (Inr x)
      then obtain os1 i1 am1 where c: "check_options argv (argv ! i) opts i am = Inr (os1, i1, am1)"
        by (cases x) auto
      have "i < j" if "(j, os) \<in> set (scan_visits argv os1 (Suc i1) am1)" for j os
        using scan_visits_bounds [OF that] check_options_index [OF c] by simp
      with "1.IH" [OF True c refl refl] True c show ?thesis
        by (auto simp: scan_visits_step)
    qed
  qed
qed

lemma scan_args_set_unchanged:
  "scan_args argv opts i am = Inr (opts', am') \<Longrightarrow> k < length opts \<Longrightarrow> m_set (opts ! k)
     \<Longrightarrow> opts' ! k = opts ! k"
proof (induction argv opts i am rule: scan_args.induct)
  case (1 argv opts i am)
  show ?case
  proof (cases "i < length argv")
    case False
    with "1.prems" show ?thesis by (simp add: scan_args_done)
  next
    case True
    show ?thesis
    proof (cases "check_options argv (argv ! i) opts i am")
      case (Inl e)
      with True "1.prems" show ?thesis by (simp add: scan_args_exit)
    next
      case (Inr x)
      then obtain os1 i1 am1 where c: "check_options argv (argv ! i) opts i am = Inr (os1, i1, am1)"
        by (cases x) auto
      with True "1.prems" have r: "scan_args argv os1 (Suc i1) am1 = Inr (opts', am')"
        by (simp add: scan_args_step)
      have same: "os1 ! k = opts ! k"
        using check_options_unmatched [OF c "1.prems"(2)] check_set_no_match "1.prems"(3) by simp
      with "1.IH" [OF True c refl refl] r "1.prems" check_options_length [OF c]
      show ?thesis by simp
    qed
  qed
qed

lemma scan_args_never_matched:
  "scan_args argv opts i am = Inr (opts', am') \<Longrightarrow> k < length opts
     \<Longrightarrow> \<forall>(j, os) \<in> set (scan_visits argv opts i am). \<not> fst (check (os ! k) (argv ! j))
     \<Longrightarrow> opts' ! k = opts ! k"
proof (induction argv opts i am rule: scan_args.induct)
  case (1 argv opts i am)
  show ?case
  proof (cases "i < length argv")
    case False
    with "1.prems" show ?thesis by (simp add: scan_args_done)
  next
    case True
    show ?thesis
    proof (cases "check_options argv (argv ! i) opts i am")
      case (Inl e)
      with True "1.prems" show ?thesis by (simp add: scan_args_exit)
    next
      case (Inr x)
      then obtain os1 i1 am1 where c: "check_options argv (argv ! i) opts i am = Inr (os1, i1, am1)"
        by (cases x) auto
      with True "1.prems" have r: "scan_args argv os1 (Suc i1) am1 = Inr (opts', am')"
        by (simp add: scan_args_step)
      from "1.prems"(3) True c have here: "\<not> fst (check (opts ! k) (argv ! i))"
        and later: "\<forall>(j, os) \<in> set (scan_visits argv os1 (Suc i1) am1). \<not> fst (check (os ! k) (argv ! j))"
        by (auto simp: scan_visits_step)
      have same: "os1 ! k = opts ! k"
        using check_options_unmatched [OF c "1.prems"(2) here] .
      with "1.IH" [OF True c refl refl] r later "1.prems"(2) check_options_length [OF c]
      show ?thesis by simp
    qed
  qed
qed

lemma scan_args_value:
  "(j, os) \<in> set (scan_visits argv opts i am) \<Longrightarrow> scan_args argv opts i am = Inr (opts', am')
     \<Longrightarrow> k < length os \<Longrightarrow> takes_value (argv ! j) (os ! k)
     \<Longrightarrow> \<forall>n<k. \<not> takes_value (argv ! j) (os ! n)
     \<Longrightarrow> Suc j < length argv \<and> opts' ! k = (os ! k)\<lparr>m_set := True, m_value := argv ! Suc j\<rparr>"
proof (induction argv opts i am rule: scan_args.induct)
  case (1 argv opts i am)
  show ?case
  proof (cases "i < length argv")
    case False
    with "1.prems" show ?thesis by (simp add: scan_visits_done)
  next
    case True
    show ?thesis
    proof (cases "check_options argv (argv ! i) opts i am")
      case (Inl e)
      with True "1.prems" show ?thesis by (simp add: scan_args_exit)
    next
      case (Inr x)
      then obtain os1 i1 am1 where c: "check_options argv (argv ! i) opts i am = Inr (os1, i1, am1)"
        by (cases x) auto
      with True "1.prems" have r: "scan_args argv os1 (Suc i1) am1 = Inr (opts', am')"
        by (simp add: scan_args_step)
      from "1.prems"(1) consider "j = i \<and> os = opts" | "(j, os) \<in> set (scan_visits argv os1 (Suc i1) am1)"
        using True c by (auto simp: scan_visits_step)
      then show ?thesis
      proof cases
        case 1
        with check_options_first_value [OF c] "1.prems" have
          v: "Suc j < length argv" "os1 ! k = (os ! k)\<lparr>m_set := True, m_value := argv ! Suc j\<rparr>"
          by simp_all
        from 1 "1.prems"(3) check_options_length [OF c] have "k < length os1" by simp
        with scan_args_set_unchanged [OF r, of k] v show ?thesis by simp
      next
        case 2
        with "1.IH" [OF True c refl refl] r "1.prems" show ?thesis by simp
      qed
    qed
  qed
qed

lemma scan_args_starved:
  "(j, os) \<in> set (scan_visits argv opts i am) \<Longrightarrow> Suc j = length argv
     \<Longrightarrow> find (takes_value (argv ! j)) os = Some option
     \<Longrightarrow> scan_args argv opts i am = Inl (value_missing_msg option)"
proof (induction argv opts i am rule: scan_args.induct)
  case (1 argv opts i am)
  show ?case
  proof (cases "i < length argv")
    case False
    with "1.prems" show ?thesis by (simp add: scan_visits_done)
  next
    case True
    show ?thesis
    proof (cases "j = i \<and> os = opts")
      case here: True
      with "1.prems" have f: "find (takes_value (argv ! i)) opts = Some option"
        and l: "length argv \<le> Suc i"
        by simp_all
      have "check_options argv (argv ! i) opts i am = Inl (value_missing_msg option)"
        using check_options_starved [OF f l] .
      with True show ?thesis by (simp add: scan_args_exit)
    next
      case False
      show ?thesis
      proof (cases "check_options argv (argv ! i) opts i am")
        case (Inl e)
        with True "1.prems"(1) False show ?thesis by (simp add: scan_visits_exit)
      next
        case (Inr x)
        then obtain os1 i1 am1 where c: "check_options argv (argv ! i) opts i am = Inr (os1, i1, am1)"
          by (cases x) auto
        with "1.prems"(1) False True have "(j, os) \<in> set (scan_visits argv os1 (Suc i1) am1)"
          by (auto simp: scan_visits_step)
        with "1.IH" [OF True c refl refl] "1.prems" have
          "scan_args argv os1 (Suc i1) am1 = Inl (value_missing_msg option)" by simp
        with True c show ?thesis by (simp add: scan_args_step)
      qed
    qed
  qed
qed

lemma scan_args_matched:
  "(j, os) \<in> set (scan_visits argv opts i am) \<Longrightarrow> scan_args argv opts i am = Inr (opts', am')
     \<Longrightarrow> k < length os \<Longrightarrow> fst (check (os ! k) (argv ! j))
     \<Longrightarrow> \<exists>v. opts' ! k = (os ! k)\<lparr>m_set := True, m_value := v\<rparr>"
proof (induction argv opts i am rule: scan_args.induct)
  case (1 argv opts i am)
  show ?case
  proof (cases "i < length argv")
    case False
    with "1.prems" show ?thesis by (simp add: scan_visits_done)
  next
    case True
    show ?thesis
    proof (cases "check_options argv (argv ! i) opts i am")
      case (Inl e)
      with True "1.prems" show ?thesis by (simp add: scan_args_exit)
    next
      case (Inr x)
      then obtain os1 i1 am1 where c: "check_options argv (argv ! i) opts i am = Inr (os1, i1, am1)"
        by (cases x) auto
      with True "1.prems" have r: "scan_args argv os1 (Suc i1) am1 = Inr (opts', am')"
        by (simp add: scan_args_step)
      from "1.prems"(1) consider "j = i \<and> os = opts" | "(j, os) \<in> set (scan_visits argv os1 (Suc i1) am1)"
        using True c by (auto simp: scan_visits_step)
      then show ?thesis
      proof cases
        case 1
        with check_options_matched [OF c] "1.prems" obtain v where
          v: "os1 ! k = (os ! k)\<lparr>m_set := True, m_value := v\<rparr>"
          by auto
        from 1 "1.prems"(3) check_options_length [OF c] have "k < length os1" by simp
        with scan_args_set_unchanged [OF r, of k] v
        have "opts' ! k = (os ! k)\<lparr>m_set := True, m_value := v\<rparr>" by simp
        then show ?thesis ..
      next
        case 2
        with "1.IH" [OF True c refl refl] r "1.prems" show ?thesis by simp
      qed
    qed
  qed
qed

lemma scan_visits_first: "1 < length argv \<Longrightarrow> hd (scan_visits argv opts 1 False) = (1, opts)"
  by (subst scan_visits.simps) simp

lemma check_options_chance:
  "check_options argv str os i am = Inr (os', i', am') \<Longrightarrow> k < length os
     \<Longrightarrow> m_set (os' ! k) = (m_set (os ! k) \<or> fst (check (os ! k) str))"
proof (cases "fst (check (os ! k) str)")
  case True
  assume "check_options argv str os i am = Inr (os', i', am')" "k < length os"
  from check_options_matched [OF this True] show ?thesis using True by auto
next
  case False
  assume "check_options argv str os i am = Inr (os', i', am')" "k < length os"
  from check_options_unmatched [OF this False] show ?thesis using False by simp
qed

lemma parse_Return_scan:
  "parse pFileName requireMatch p = Some (Return p')
     \<Longrightarrow> \<exists>am'. scan_args (m_argv p) (m_options p) 1 False = Inr (m_options p', am')"
  by (auto simp: parse_def Let_def
      split: sum.splits prod.splits if_splits option.splits outcome.splits)

lemma parse_exit_scan:
  "scan_args (m_argv p) (m_options p) 1 False = Inl e
     \<Longrightarrow> parse pFileName requireMatch p = Some (Exit (- 1) (cout p) (cerr p @ e))"
  by (simp add: parse_def)

lemma report_required_eq:
  "report_required opts err allRequiredSet =
     (err @ concat (map required_missing_msg (filter (\<lambda>option. m_required option \<and> \<not> isSet_opt option) opts)),
      allRequiredSet \<and> filter (\<lambda>option. m_required option \<and> \<not> isSet_opt option) opts = [])"
  by (induction opts arbitrary: err allRequiredSet) (simp_all add: isRequired_def)

lemma scan_visits_set_stays:
  "(j, os) \<in> set (scan_visits argv opts i am) \<Longrightarrow> k < length opts \<Longrightarrow> m_set (opts ! k)
     \<Longrightarrow> os ! k = opts ! k"
proof (induction argv opts i am rule: scan_visits.induct)
  case (1 argv opts i am)
  show ?case
  proof (cases "i < length argv")
    case False
    with "1.prems" show ?thesis by (simp add: scan_visits_done)
  next
    case True
    show ?thesis
    proof (cases "check_options argv (argv ! i) opts i am")
      case (Inl e)
      with True "1.prems" show ?thesis by (simp add: scan_visits_exit)
    next
      case (Inr r)
      then obtain os1 i1 am1 where c: "check_options argv (argv ! i) opts i am = Inr (os1, i1, am1)"
        by (cases r) auto
      from "1.prems"(1) consider "j = i \<and> os = opts" | "(j, os) \<in> set (scan_visits argv os1 (Suc i1) am1)"
        using True c by (auto simp: scan_visits_step)
      then show ?thesis
      proof cases
        case 1
        then show ?thesis by simp
      next
        case 2
        have same: "os1 ! k = opts ! k"
          using check_options_unmatched [OF c "1.prems"(2)] check_set_no_match "1.prems"(3)
          by simp
        with "1.IH" [OF True c refl refl] 2 "1.prems" check_options_length [OF c]
        show ?thesis by simp
      qed
    qed
  qed
qed

lemma scan_visits_one_shot:
  "k < length opts \<Longrightarrow>
     length (filter (\<lambda>(j, os). fst (check (os ! k) (argv ! j))) (scan_visits argv opts i am)) \<le> 1"
proof (induction argv opts i am rule: scan_visits.induct)
  case (1 argv opts i am)
  let ?claims = "\<lambda>(j, os). fst (check (os ! k) (argv ! j))"
  show ?case
  proof (cases "i < length argv")
    case False
    then show ?thesis by (simp add: scan_visits_done)
  next
    case True
    show ?thesis
    proof (cases "check_options argv (argv ! i) opts i am")
      case (Inl e)
      with True show ?thesis by (simp add: scan_visits_exit)
    next
      case (Inr r)
      then obtain os1 i1 am1 where c: "check_options argv (argv ! i) opts i am = Inr (os1, i1, am1)"
        by (cases r) auto
      have len: "k < length os1"
        using check_options_length [OF c] "1.prems" by simp
      have unfold: "scan_visits argv opts i am = (i, opts) # scan_visits argv os1 (Suc i1) am1"
        using True c by (rule scan_visits_step)
      show ?thesis
      proof (cases "fst (check (opts ! k) (argv ! i))")
        case claimed: True
        from check_options_matched [OF c "1.prems" claimed] have set: "m_set (os1 ! k)"
          by auto
        have "\<not> ?claims v" if "v \<in> set (scan_visits argv os1 (Suc i1) am1)" for v
        proof -
          obtain j os where v: "v = (j, os)" by (cases v)
          with that scan_visits_set_stays [OF _ len set] have "os ! k = os1 ! k" by simp
          with set v show ?thesis by (simp add: check_set_no_match)
        qed
        then have "filter ?claims (scan_visits argv os1 (Suc i1) am1) = []"
          by (simp add: filter_empty_conv)
        with claimed unfold show ?thesis by simp
      next
        case False
        with "1.IH" [OF True c refl refl] len unfold show ?thesis by simp
      qed
    qed
  qed
qed

section \<open>How far the scan goes\<close>

lemma extract_word_empty: "extract_word s = [] \<longleftrightarrow> (\<forall>c \<in> set s. isspace c)"
proof
  assume "extract_word s = []"
  then have "dropWhile isspace s = [] \<or> isspace (hd (dropWhile isspace s))"
    by (auto simp: extract_word_def takeWhile_eq_Nil_iff)
  moreover have "\<not> isspace (hd (dropWhile isspace s))" if "dropWhile isspace s \<noteq> []"
    using that hd_dropWhile [of isspace s] by simp
  ultimately have "dropWhile isspace s = []" by blast
  then show "\<forall>c \<in> set s. isspace c"
    by (simp add: dropWhile_eq_Nil_conv)
next
  assume "\<forall>c \<in> set s. isspace c"
  then have "dropWhile isspace s = []"
    by (simp add: dropWhile_eq_Nil_conv)
  then show "extract_word s = []"
    by (simp only: extract_word_def takeWhile.simps)
qed

lemma check_options_count:
  "check_options argv str opts i am = Inr (opts', i', am')
     \<Longrightarrow> i' = i + length (filter (takes_value str) opts)"
proof (induction opts arbitrary: i am opts')
  case Nil
  then show ?case by simp
next
  case (Cons option rest)
  show ?case
  proof (cases "takes_value str option")
    case True
    with Cons.prems obtain rest' where
      "check_options argv str rest (Suc i) True = Inr (rest', i', am')"
      unfolding check_options_Cons takes_value_def
      by (auto simp: processed_Inr split: if_splits)
    from Cons.IH [OF this] True show ?thesis by simp
  next
    case False
    with Cons.prems obtain rest' am1 where
      "check_options argv str rest i am1 = Inr (rest', i', am')"
      unfolding check_options_Cons takes_value_def
      by (auto simp: processed_Inr split: if_splits)
    from Cons.IH [OF this] False show ?thesis by simp
  qed
qed

lemma isl_processed: "isl (processed option x) = isl x"
  by (cases x) (auto simp: processed_def)

lemma check_options_isl:
  "isl (check_options argv str opts i am) \<longleftrightarrow>
     \<not> (filter (takes_value str) opts = [] \<or> i + length (filter (takes_value str) opts) < length argv)"
proof (induction opts arbitrary: i am)
  case Nil
  then show ?case by simp
next
  case (Cons option rest)
  show ?case
  proof (cases "takes_value str option")
    case True
    show ?thesis
    proof (cases "Suc i \<ge> length argv")
      case starved: True
      with True show ?thesis
        unfolding check_options_Cons takes_value_def by simp
    next
      case False
      with True have "isl (check_options argv str (option # rest) i am)
          = isl (check_options argv str rest (Suc i) True)"
        unfolding check_options_Cons takes_value_def by (simp add: isl_processed)
      with Cons.IH [of "Suc i" True] True False show ?thesis by auto
    qed
  next
    case False
    then have "isl (check_options argv str (option # rest) i am)
        = isl (check_options argv str rest i (am \<or> fst (check option str)))"
      unfolding check_options_Cons takes_value_def by (auto simp: isl_processed)
    with Cons.IH [of i "am \<or> fst (check option str)"] False show ?thesis by simp
  qed
qed

lemma check_options_returns:
  "(\<exists>r. check_options argv str opts i am = Inr r) \<longleftrightarrow>
     (filter (takes_value str) opts = [] \<or> i + length (filter (takes_value str) opts) < length argv)"
proof -
  have "(\<exists>r. check_options argv str opts i am = Inr r) \<longleftrightarrow> \<not> isl (check_options argv str opts i am)"
    by (cases "check_options argv str opts i am") auto
  then show ?thesis by (simp only: check_options_isl) simp
qed

lemma check_options_other_flag:
  "check_options argv str opts i am = Inr (opts', i', am')
     \<Longrightarrow> check_options argv str opts i am2
           = Inr (opts', i', am2 \<or> (\<exists>option \<in> set opts. fst (check option str)))"
proof (induction opts arbitrary: i am am2 opts')
  case Nil
  then show ?case by simp
next
  case (Cons option rest)
  show ?case
  proof (cases "fst (check option str)")
    case True
    let ?o1 = "if m_hasValue option then option\<lparr>m_set := True, m_value := argv ! Suc i\<rparr>
               else option\<lparr>m_set := True\<rparr>"
    let ?i1 = "if m_hasValue option then Suc i else i"
    have shape: "check_options argv str (option # rest) i a
        = (if m_hasValue option \<and> Suc i \<ge> length argv then Inl (value_missing_msg option)
           else processed ?o1 (check_options argv str rest ?i1 True))" for a
      unfolding check_options_Cons using True by simp
    from Cons.prems shape [of am] have go: "\<not> (m_hasValue option \<and> Suc i \<ge> length argv)"
      by (auto split: if_splits)
    with Cons.prems shape [of am] obtain rest' where
      r: "check_options argv str rest ?i1 True = Inr (rest', i', am')" and o: "opts' = ?o1 # rest'"
      by (auto simp: processed_Inr simp del: check_options.simps)
    from check_options_any_match [OF r] have "am'" by simp
    with r o go True shape [of am2] show ?thesis
      by (simp add: processed_def del: check_options.simps)
  next
    case False
    from Cons.prems False obtain rest' where
      r: "check_options argv str rest i am = Inr (rest', i', am')" and o: "opts' = option # rest'"
      unfolding check_options_Cons by (auto simp: processed_Inr split: if_splits)
    from Cons.IH [OF r, of am2] o False show ?thesis
      unfolding check_options_Cons [of argv str option rest i am2] by (simp add: processed_def)
  qed
qed

lemma scan_visits_head: "i < length argv \<Longrightarrow> (i, opts) \<in> set (scan_visits argv opts i am)"
  by (subst scan_visits.simps) simp

lemma scan_visits_next:
  "(j, os) \<in> set (scan_visits argv opts i am)
     \<Longrightarrow> check_options argv (argv ! j) os j am0 = Inr (os', i', am') \<Longrightarrow> Suc i' < length argv
     \<Longrightarrow> (Suc i', os') \<in> set (scan_visits argv opts i am)"
proof (induction argv opts i am rule: scan_visits.induct)
  case (1 argv opts i am)
  show ?case
  proof (cases "i < length argv")
    case False
    with "1.prems" show ?thesis by (simp add: scan_visits_done)
  next
    case True
    show ?thesis
    proof (cases "check_options argv (argv ! i) opts i am")
      case (Inl e)
      with True "1.prems"(1) have here: "j = i" "os = opts"
        by (simp_all add: scan_visits_exit)
      from check_options_other_flag [OF "1.prems"(2), of am] here Inl show ?thesis by simp
    next
      case (Inr r)
      then obtain os1 i1 am1 where c: "check_options argv (argv ! i) opts i am = Inr (os1, i1, am1)"
        by (cases r) auto
      have unfold: "scan_visits argv opts i am = (i, opts) # scan_visits argv os1 (Suc i1) am1"
        using True c by (rule scan_visits_step)
      from "1.prems"(1) unfold consider "j = i \<and> os = opts"
        | "(j, os) \<in> set (scan_visits argv os1 (Suc i1) am1)"
        by auto
      then show ?thesis
      proof cases
        case 1
        with check_options_other_flag [OF "1.prems"(2), of am] c have "os1 = os'" "i1 = i'"
          by simp_all
        with scan_visits_head [OF "1.prems"(3), of os' am1] unfold show ?thesis by simp
      next
        case 2
        with "1.IH" [OF True c refl refl] "1.prems"(2,3) unfold show ?thesis by simp
      qed
    qed
  qed
qed

lemma scan_args_covers:
  "scan_args argv opts i am = Inr (opts', am') \<Longrightarrow> i \<le> n \<Longrightarrow> n < length argv
     \<Longrightarrow> \<exists>(j, os) \<in> set (scan_visits argv opts i am).
           j \<le> n \<and> n \<le> j + length (filter (takes_value (argv ! j)) os)"
proof (induction argv opts i am rule: scan_args.induct)
  case (1 argv opts i am)
  from "1.prems" have True: "i < length argv" by simp
  show ?case
  proof (cases "check_options argv (argv ! i) opts i am")
    case (Inl e)
    with True "1.prems" show ?thesis by (simp add: scan_args_exit)
  next
    case (Inr r)
    then obtain os1 i1 am1 where c: "check_options argv (argv ! i) opts i am = Inr (os1, i1, am1)"
      by (cases r) auto
    with True "1.prems" have r: "scan_args argv os1 (Suc i1) am1 = Inr (opts', am')"
      by (simp add: scan_args_step)
    have unfold: "scan_visits argv opts i am = (i, opts) # scan_visits argv os1 (Suc i1) am1"
      using True c by (rule scan_visits_step)
    have i1: "i1 = i + length (filter (takes_value (argv ! i)) opts)"
      using c by (rule check_options_count)
    show ?thesis
    proof (cases "n \<le> i1")
      case True
      with i1 "1.prems"(2) unfold show ?thesis by simp
    next
      case False
      then have "Suc i1 \<le> n" by simp
      with "1.IH" [OF True c refl refl] r "1.prems"(3)
      have "\<exists>(j, os) \<in> set (scan_visits argv os1 (Suc i1) am1).
           j \<le> n \<and> n \<le> j + length (filter (takes_value (argv ! j)) os)"
        by simp
      with unfold show ?thesis by auto
    qed
  qed
qed

lemma check_options_exit_flag:
  "check_options argv str opts i am = Inl e \<Longrightarrow> check_options argv str opts i am2 = Inl e"
proof (induction opts arbitrary: i am am2)
  case Nil
  then show ?case by simp
next
  case (Cons option rest)
  show ?case
  proof (cases "fst (check option str)")
    case True
    let ?o1 = "if m_hasValue option then option\<lparr>m_set := True, m_value := argv ! Suc i\<rparr>
               else option\<lparr>m_set := True\<rparr>"
    let ?i1 = "if m_hasValue option then Suc i else i"
    have shape: "check_options argv str (option # rest) i a
        = (if m_hasValue option \<and> Suc i \<ge> length argv then Inl (value_missing_msg option)
           else processed ?o1 (check_options argv str rest ?i1 True))" for a
      unfolding check_options_Cons using True by simp
    from Cons.prems show ?thesis
      by (simp only: shape [of am] shape [of am2])
  next
    case False
    from Cons.prems False have "check_options argv str rest i am = Inl e"
      unfolding check_options_Cons by (simp add: processed_Inl)
    from Cons.IH [OF this, of am2] False show ?thesis
      unfolding check_options_Cons [of argv str option rest i am2] by (simp add: processed_Inl)
  qed
qed

lemma scan_visits_exit_result:
  "(j, os) \<in> set (scan_visits argv opts i am) \<Longrightarrow> check_options argv (argv ! j) os j am0 = Inl e
     \<Longrightarrow> scan_args argv opts i am = Inl e"
proof (induction argv opts i am rule: scan_args.induct)
  case (1 argv opts i am)
  show ?case
  proof (cases "i < length argv")
    case False
    with "1.prems" show ?thesis by (simp add: scan_visits_done)
  next
    case True
    show ?thesis
    proof (cases "j = i \<and> os = opts")
      case here: True
      with check_options_exit_flag [OF "1.prems"(2), of am]
      have "check_options argv (argv ! i) opts i am = Inl e" by simp
      with True show ?thesis by (simp add: scan_args_exit)
    next
      case False
      show ?thesis
      proof (cases "check_options argv (argv ! i) opts i am")
        case (Inl e')
        with True "1.prems"(1) False show ?thesis by (simp add: scan_visits_exit)
      next
        case (Inr r)
        then obtain os1 i1 am1 where c: "check_options argv (argv ! i) opts i am = Inr (os1, i1, am1)"
          by (cases r) auto
        with "1.prems"(1) False True have "(j, os) \<in> set (scan_visits argv os1 (Suc i1) am1)"
          by (auto simp: scan_visits_step)
        with "1.IH" [OF True c refl refl] "1.prems"(2) have
          "scan_args argv os1 (Suc i1) am1 = Inl e" by simp
        with True c show ?thesis by (simp add: scan_args_step)
      qed
    qed
  qed
qed

lemma scan_visits_empty: "scan_visits argv opts i am = [] \<longleftrightarrow> \<not> i < length argv"
  by (subst scan_visits.simps) simp

section \<open>Lookup by declaration\<close>

lemma find_option_cong: "eq_option a b \<Longrightarrow> find_option opts a = find_option opts b"
proof -
  assume "eq_option a b"
  then have "(\<lambda>x. eq_option x a) = (\<lambda>x. eq_option x b)"
    by (auto simp: eq_option_def)
  then show ?thesis by (simp add: find_option_def)
qed

lemma find_option_first:
  "k < length opts \<Longrightarrow> eq_option (opts ! k) a \<Longrightarrow> \<forall>n<k. \<not> eq_option (opts ! n) a
     \<Longrightarrow> find_option opts a = Some (opts ! k)"
  unfolding find_option_def find_Some_iff by blast

lemma find_option_none:
  "\<forall>r \<in> set opts. \<not> eq_option r a \<Longrightarrow> find_option opts a = None"
  unfolding find_option_def find_None_iff by blast

lemma check_options_declaration:
  assumes "check_options argv str os i am = Inr (os', i', am')" and "n < length os"
  shows "eq_option (os' ! n) x = eq_option (os ! n) x"
proof (cases "fst (check (os ! n) str)")
  case True
  from check_options_matched [OF assms True] show ?thesis
    by (auto simp: eq_option_def)
next
  case False
  from check_options_unmatched [OF assms False] show ?thesis
    by simp
qed

lemma scan_args_declaration:
  "scan_args argv opts i am = Inr (opts', am') \<Longrightarrow> n < length opts
     \<Longrightarrow> eq_option (opts' ! n) x = eq_option (opts ! n) x"
proof (induction argv opts i am rule: scan_args.induct)
  case (1 argv opts i am)
  show ?case
  proof (cases "i < length argv")
    case False
    with "1.prems" show ?thesis by (simp add: scan_args_done)
  next
    case True
    show ?thesis
    proof (cases "check_options argv (argv ! i) opts i am")
      case (Inl e)
      with True "1.prems" show ?thesis by (simp add: scan_args_exit)
    next
      case (Inr r)
      then obtain os1 i1 am1 where c: "check_options argv (argv ! i) opts i am = Inr (os1, i1, am1)"
        by (cases r) auto
      with True "1.prems" have r: "scan_args argv os1 (Suc i1) am1 = Inr (opts', am')"
        by (simp add: scan_args_step)
      from "1.IH" [OF True c refl refl] r "1.prems"(2) check_options_length [OF c]
      have "eq_option (opts' ! n) x = eq_option (os1 ! n) x" by simp
      with check_options_declaration [OF c "1.prems"(2)] show ?thesis by simp
    qed
  qed
qed

lemma scan_visits_declaration:
  "(j, os) \<in> set (scan_visits argv opts i am) \<Longrightarrow> scan_args argv opts i am = Inr (opts', am')
     \<Longrightarrow> n < length os \<Longrightarrow> eq_option (opts' ! n) x = eq_option (os ! n) x"
proof (induction argv opts i am rule: scan_args.induct)
  case (1 argv opts i am)
  show ?case
  proof (cases "i < length argv")
    case False
    with "1.prems" show ?thesis by (simp add: scan_visits_done)
  next
    case True
    show ?thesis
    proof (cases "check_options argv (argv ! i) opts i am")
      case (Inl e)
      with True "1.prems" show ?thesis by (simp add: scan_args_exit)
    next
      case (Inr r)
      then obtain os1 i1 am1 where c: "check_options argv (argv ! i) opts i am = Inr (os1, i1, am1)"
        by (cases r) auto
      with True "1.prems" have r: "scan_args argv os1 (Suc i1) am1 = Inr (opts', am')"
        by (simp add: scan_args_step)
      from "1.prems"(1) consider "j = i \<and> os = opts" | "(j, os) \<in> set (scan_visits argv os1 (Suc i1) am1)"
        using True c by (auto simp: scan_visits_step)
      then show ?thesis
      proof cases
        case 1
        with scan_args_declaration [OF "1.prems"(2)] "1.prems"(3) show ?thesis by simp
      next
        case 2
        with "1.IH" [OF True c refl refl] r "1.prems" show ?thesis by simp
      qed
    qed
  qed
qed

lemma parse_value_query:
  assumes ret: "parse pFileName requireMatch p = Some (Return p')"
    and visit: "(j, os) \<in> set (scan_visits (m_argv p) (m_options p) 1 False)"
    and k: "k < length os" and takes: "takes_value (m_argv p ! j) (os ! k)"
    and first: "\<forall>n<k. \<not> takes_value (m_argv p ! j) (os ! n)"
    and eq: "eq_option (os ! k) a" and unique: "\<forall>n<k. \<not> eq_option (os ! n) a"
  shows "isSet p' a \<and> getValue p' a = m_argv p ! Suc j"
proof -
  from parse_Return_scan [OF ret] obtain am' where
    scan: "scan_args (m_argv p) (m_options p) 1 False = Inr (m_options p', am')" by blast
  from scan_args_value [OF visit scan k takes first]
  have v: "m_options p' ! k = (os ! k)\<lparr>m_set := True, m_value := m_argv p ! Suc j\<rparr>"
    by simp
  from scan_visits_bounds [OF visit] scan_args_length [OF scan] k
  have kl: "k < length (m_options p')" by simp
  have "eq_option (m_options p' ! n) a = eq_option (os ! n) a" if "n \<le> k" for n
    using scan_visits_declaration [OF visit scan, of n a] that k by simp
  with eq unique have "eq_option (m_options p' ! k) a" "\<forall>n<k. \<not> eq_option (m_options p' ! n) a"
    by simp_all
  from find_option_first [OF kl this]
  have "find_option (m_options p') a = Some (m_options p' ! k)" .
  with v show ?thesis
    by (simp add: isSet_def getValue_def isSet_opt_def getValue_opt_def)
qed

section \<open>The claims about \<open>parse\<close>\<close>

lemmas example_defs = example_parser_def addOption_def addHelpOption_def CommandLineParser_def
  file_option_def group_option_def CLO_plain_def CLO_def

lemmas scan_eval = scan_args.simps scan_visits.simps check_def extract_word_def isspace_def
  Let_def processed_def hasValue_def setValue_def value_missing_msg_def takes_value_def

lemmas query_eval = isSet_def getValue_def find_option_def eq_option_def isSet_opt_def
  getValue_opt_def isRequired_def required_missing_msg_def endl_def

text \<open>
  Claim C2. An option that is already set answers \<open>False\<close> to every token and stays
  as it is. An option that is not set answers \<open>True\<close> exactly when the token is its
  non-empty primary name or the first white-space-delimited word of its alternate
  name field (the word \<open>operator>>\<close> extracts, which sits in the field after leading
  white space only and ends at white space or at the end of the field, and which is
  empty only when the whole field is white space: space, tab, line feed, vertical
  tab, form feed and carriage return). The only
  thing \<open>check\<close> changes is the \<open>set\<close> flag, which it raises exactly when it
  answers \<open>True\<close>. Hence in any sequence of calls on one instance at most one call
  answers \<open>True\<close>, and in a scan of an argument vector an option claims at most one
  of the tokens the scan reads.
\<close>

theorem check_one_shot:
  "(m_set opt \<longrightarrow> check opt tok = (False, opt))
   \<and> fst (check opt tok) =
       (\<not> m_set opt \<and> ((m_arg opt \<noteq> [] \<and> tok = m_arg opt)
          \<or> (extract_word (m_argAlt opt) \<noteq> [] \<and> tok = extract_word (m_argAlt opt))))
   \<and> snd (check opt tok) = opt\<lparr>m_set := (m_set opt \<or> fst (check opt tok))\<rparr>
   \<and> (\<exists>ws rest. m_argAlt opt = ws @ extract_word (m_argAlt opt) @ rest
         \<and> (\<forall>c \<in> set ws. isspace c)
         \<and> (\<forall>c \<in> set (extract_word (m_argAlt opt)). \<not> isspace c)
         \<and> (rest = [] \<or> isspace (hd rest)))
   \<and> (extract_word (m_argAlt opt) = []) = (\<forall>c \<in> set (m_argAlt opt). isspace c)
   \<and> isspace ch = (ch \<in> {CHR '' '', CHR 0x09, CHR 0x0A, CHR 0x0B, CHR 0x0C, CHR 0x0D})
   \<and> length (filter (\<lambda>r. r) (fst (check_all opt toks))) \<le> 1
   \<and> (k < length opts \<longrightarrow>
        length (filter (\<lambda>(j, os). fst (check (os ! k) (argv ! j)))
          (scan_visits argv opts 1 False)) \<le> 1)"
proof -
  have "isspace ch = (ch \<in> {CHR '' '', CHR 0x09, CHR 0x0A, CHR 0x0B, CHR 0x0C, CHR 0x0D})"
    by (auto simp: isspace_def)
  then show ?thesis
    using check_when_set [of opt tok] check_result [of opt tok] check_state [of opt tok]
      extract_word_shape [of "m_argAlt opt"] check_all_at_most_once [of opt toks]
      scan_visits_one_shot [of k opts argv 1 False] extract_word_empty [of "m_argAlt opt"]
    by blast
qed

theorem check_one_shot_witness:
  "m_set (file_option\<lparr>m_set := True\<rparr>)
   \<and> check (file_option\<lparr>m_set := True\<rparr>) ''-f'' = (False, file_option\<lparr>m_set := True\<rparr>)
   \<and> fst (check_all file_option [''--file'', ''-f'', ''--file'']) = [True, False, False]
   \<and> length (filter (\<lambda>r. r) (fst (check_all file_option [''--file'', ''-f'', ''--file'']))) \<le> 1
   \<and> (0::nat) < length [file_option]
   \<and> map fst (filter (\<lambda>(j, os). fst (check (os ! 0) ([''prog'', ''-f'', ''a'', ''-f'', ''b''] ! j)))
         (scan_visits [''prog'', ''-f'', ''a'', ''-f'', ''b''] [file_option] 1 False)) = [1]
   \<and> extract_word '' --alt HINT'' = ''--alt''
   \<and> fst (check (CLO_plain ''-a'' '' --alt HINT'' ''Alternative'' HasValue_No Required_No) ''--alt'')
   \<and> fst (check (CLO_plain ''-a'' ([CHR 0x09] @ ''--alt'' @ [CHR 0x09] @ ''HINT'') ''Alternative''
         HasValue_No Required_No) ''--alt'')
   \<and> \<not> fst (check (CLO_plain [] ''   '' ''Blank'' HasValue_No Required_No) [])
   \<and> \<not> fst (check file_option ''--file FILE'')"
  using check_one_shot [of "file_option\<lparr>m_set := True\<rparr>" "''-f''" "CHR '' ''" "[]" 0 "[file_option]"
      "[''prog'', ''-f'', ''a'', ''-f'', ''b'']"]
    check_one_shot [of file_option "''--file''" "CHR '' ''" "[''--file'', ''-f'', ''--file'']" 0
      "[file_option]" "[''prog'', ''-f'', ''a'', ''-f'', ''b'']"]
  by (simp add: file_option_def CLO_plain_def CLO_def scan_eval)

text \<open>
  Claim C1. The outer loop reads tokens at strictly increasing indices. It reads
  nothing when there is no token beyond the program path, and otherwise starts at
  index 1 with the options as declared; every index it reads is a token of the
  argument vector. At a token it reads, every option is offered the token: after the
  inner loop an option is set exactly if it was set before or claims the token, so no
  option is skipped after an earlier one has matched. The inner loop returns exactly
  when no value-bearing option claims the token or a token is left for each that
  does; it then leaves the index advanced by the number of value-bearing options
  that claimed the token, and \<open>anyMatch\<close> raised exactly if it was raised or some
  option claimed the token. The scan goes on from there: when a further token is left
  after the values taken, the token right after them is read next, with the options
  as the inner loop left them; and when the inner loop exits for want of a value,
  the scan ends with that exit. So when the scan runs to its end, every index from 1
  to the last is read as a flag or lies among the value tokens taken at the read
  before it. When the scan runs to its end and, at a token it reads, a value-bearing
  option claims the token and no value-bearing option declared before it does (in
  particular when it is the only one), then the token right after it exists and is
  the value the option holds when the scan ends: the option is set, \<open>isSet\<close> is true
  and \<open>getValue\<close> is that next token. When \<open>parse\<close> returns, the parser holds the
  options the scan ended with, and the queries \<open>isSet\<close> and \<open>getValue\<close> of the parser
  give these answers for every declaration equal to that option, provided no option
  declared before it is equal to it as well.
\<close>

theorem scan_order_and_value:
  "sorted_wrt (<) (map fst (scan_visits argv opts 1 False))
   \<and> (1 < length argv \<longrightarrow> hd (scan_visits argv opts 1 False) = (1, opts))
   \<and> (scan_visits argv opts 1 False = []) = (\<not> 1 < length argv)
   \<and> (\<forall>(j, os) \<in> set (scan_visits argv opts 1 False).
         1 \<le> j \<and> j < length argv \<and> length os = length opts
         \<and> (\<forall>i am os' i' am' n. check_options argv (argv ! j) os i am = Inr (os', i', am')
               \<and> n < length os
               \<longrightarrow> m_set (os' ! n) = (m_set (os ! n) \<or> fst (check (os ! n) (argv ! j))))
         \<and> (\<forall>i am os' i' am'. check_options argv (argv ! j) os i am = Inr (os', i', am')
               \<longrightarrow> length os' = length os
                 \<and> i' = i + length (filter (takes_value (argv ! j)) os)
                 \<and> am' = (am \<or> (\<exists>option \<in> set os. fst (check option (argv ! j)))))
         \<and> (\<forall>i am. (\<exists>r. check_options argv (argv ! j) os i am = Inr r)
               = (filter (takes_value (argv ! j)) os = []
                  \<or> i + length (filter (takes_value (argv ! j)) os) < length argv))
         \<and> (\<forall>am os' i' am'. check_options argv (argv ! j) os j am = Inr (os', i', am')
               \<and> Suc i' < length argv
               \<longrightarrow> (Suc i', os') \<in> set (scan_visits argv opts 1 False))
         \<and> (\<forall>am e. check_options argv (argv ! j) os j am = Inl e
               \<longrightarrow> scan_args argv opts 1 False = Inl e)
         \<and> (\<forall>k opts' am'. scan_args argv opts 1 False = Inr (opts', am')
               \<and> k < length os \<and> takes_value (argv ! j) (os ! k)
               \<and> (\<forall>n<k. \<not> takes_value (argv ! j) (os ! n))
               \<longrightarrow> Suc j < length argv
                 \<and> opts' ! k = (os ! k)\<lparr>m_set := True, m_value := argv ! Suc j\<rparr>
                 \<and> isSet_opt (opts' ! k) \<and> getValue_opt (opts' ! k) = argv ! Suc j))
   \<and> (\<forall>opts' am' n. scan_args argv opts 1 False = Inr (opts', am')
         \<and> 1 \<le> n \<and> n < length argv
         \<longrightarrow> (\<exists>(j, os) \<in> set (scan_visits argv opts 1 False).
               j \<le> n \<and> n \<le> j + length (filter (takes_value (argv ! j)) os)))
   \<and> (\<forall>pFileName requireMatch p p'. m_argv p = argv \<and> m_options p = opts
         \<and> parse pFileName requireMatch p = Some (Return p')
         \<longrightarrow> (\<exists>am'. scan_args argv opts 1 False = Inr (m_options p', am'))
           \<and> (\<forall>j os k a. (j, os) \<in> set (scan_visits argv opts 1 False)
                 \<and> k < length os \<and> takes_value (argv ! j) (os ! k)
                 \<and> (\<forall>n<k. \<not> takes_value (argv ! j) (os ! n))
                 \<and> eq_option (os ! k) a \<and> (\<forall>n<k. \<not> eq_option (os ! n) a)
                 \<longrightarrow> isSet p' a \<and> getValue p' a = argv ! Suc j))"
proof (intro conjI)
  show "sorted_wrt (<) (map fst (scan_visits argv opts 1 False))"
    by (rule scan_visits_sorted)
  show "1 < length argv \<longrightarrow> hd (scan_visits argv opts 1 False) = (1, opts)"
    using scan_visits_first by blast
  show "(scan_visits argv opts 1 False = []) = (\<not> 1 < length argv)"
    by (rule scan_visits_empty)
  show "\<forall>opts' am' n. scan_args argv opts 1 False = Inr (opts', am')
         \<and> 1 \<le> n \<and> n < length argv
         \<longrightarrow> (\<exists>(j, os) \<in> set (scan_visits argv opts 1 False).
               j \<le> n \<and> n \<le> j + length (filter (takes_value (argv ! j)) os))"
    using scan_args_covers by blast
  show "\<forall>pFileName requireMatch p p'. m_argv p = argv \<and> m_options p = opts
         \<and> parse pFileName requireMatch p = Some (Return p')
         \<longrightarrow> (\<exists>am'. scan_args argv opts 1 False = Inr (m_options p', am'))
           \<and> (\<forall>j os k a. (j, os) \<in> set (scan_visits argv opts 1 False)
                 \<and> k < length os \<and> takes_value (argv ! j) (os ! k)
                 \<and> (\<forall>n<k. \<not> takes_value (argv ! j) (os ! n))
                 \<and> eq_option (os ! k) a \<and> (\<forall>n<k. \<not> eq_option (os ! n) a)
                 \<longrightarrow> isSet p' a \<and> getValue p' a = argv ! Suc j)"
  proof (intro allI impI conjI)
    fix pFileName requireMatch p p'
    assume a: "m_argv p = argv \<and> m_options p = opts
        \<and> parse pFileName requireMatch p = Some (Return p')"
    then show "\<exists>am'. scan_args argv opts 1 False = Inr (m_options p', am')"
      using parse_Return_scan by blast
    fix j os k x
    assume b: "(j, os) \<in> set (scan_visits argv opts 1 False)
        \<and> k < length os \<and> takes_value (argv ! j) (os ! k)
        \<and> (\<forall>n<k. \<not> takes_value (argv ! j) (os ! n))
        \<and> eq_option (os ! k) x \<and> (\<forall>n<k. \<not> eq_option (os ! n) x)"
    from a b parse_value_query [of pFileName requireMatch p p' j os k x]
    show "isSet p' x" "getValue p' x = argv ! Suc j"
      by simp_all
  qed
  show "\<forall>(j, os) \<in> set (scan_visits argv opts 1 False).
         1 \<le> j \<and> j < length argv \<and> length os = length opts
         \<and> (\<forall>i am os' i' am' n. check_options argv (argv ! j) os i am = Inr (os', i', am')
               \<and> n < length os
               \<longrightarrow> m_set (os' ! n) = (m_set (os ! n) \<or> fst (check (os ! n) (argv ! j))))
         \<and> (\<forall>i am os' i' am'. check_options argv (argv ! j) os i am = Inr (os', i', am')
               \<longrightarrow> length os' = length os
                 \<and> i' = i + length (filter (takes_value (argv ! j)) os)
                 \<and> am' = (am \<or> (\<exists>option \<in> set os. fst (check option (argv ! j)))))
         \<and> (\<forall>i am. (\<exists>r. check_options argv (argv ! j) os i am = Inr r)
               = (filter (takes_value (argv ! j)) os = []
                  \<or> i + length (filter (takes_value (argv ! j)) os) < length argv))
         \<and> (\<forall>am os' i' am'. check_options argv (argv ! j) os j am = Inr (os', i', am')
               \<and> Suc i' < length argv
               \<longrightarrow> (Suc i', os') \<in> set (scan_visits argv opts 1 False))
         \<and> (\<forall>am e. check_options argv (argv ! j) os j am = Inl e
               \<longrightarrow> scan_args argv opts 1 False = Inl e)
         \<and> (\<forall>k opts' am'. scan_args argv opts 1 False = Inr (opts', am')
               \<and> k < length os \<and> takes_value (argv ! j) (os ! k)
               \<and> (\<forall>n<k. \<not> takes_value (argv ! j) (os ! n))
               \<longrightarrow> Suc j < length argv
                 \<and> opts' ! k = (os ! k)\<lparr>m_set := True, m_value := argv ! Suc j\<rparr>
                 \<and> isSet_opt (opts' ! k) \<and> getValue_opt (opts' ! k) = argv ! Suc j)"
  proof (intro ballI, clarify, intro conjI allI impI)
    fix j os
    assume v: "(j, os) \<in> set (scan_visits argv opts 1 False)"
    from scan_visits_bounds [OF v]
    show "1 \<le> j" "j < length argv" "length os = length opts"
      by simp_all
    {
      fix i am os' i' am' n
      assume "check_options argv (argv ! j) os i am = Inr (os', i', am') \<and> n < length os"
      then show "m_set (os' ! n) = (m_set (os ! n) \<or> fst (check (os ! n) (argv ! j)))"
        using check_options_chance by blast
    }
    {
      fix i am os' i' am'
      assume c: "check_options argv (argv ! j) os i am = Inr (os', i', am')"
      show "length os' = length os"
        using c by (rule check_options_length)
      show "i' = i + length (filter (takes_value (argv ! j)) os)"
        using c by (rule check_options_count)
      show "am' = (am \<or> (\<exists>option \<in> set os. fst (check option (argv ! j))))"
        using c by (rule check_options_any_match)
    }
    {
      fix i am
      show "(\<exists>r. check_options argv (argv ! j) os i am = Inr r)
          = (filter (takes_value (argv ! j)) os = []
             \<or> i + length (filter (takes_value (argv ! j)) os) < length argv)"
        by (rule check_options_returns)
    }
    {
      fix am os' i' am'
      assume "check_options argv (argv ! j) os j am = Inr (os', i', am') \<and> Suc i' < length argv"
      then show "(Suc i', os') \<in> set (scan_visits argv opts 1 False)"
        using scan_visits_next [OF v] by blast
    }
    {
      fix am e
      assume "check_options argv (argv ! j) os j am = Inl e"
      then show "scan_args argv opts 1 False = Inl e"
        using scan_visits_exit_result [OF v] by blast
    }
    {
      fix k opts' am'
      assume a: "scan_args argv opts 1 False = Inr (opts', am')
               \<and> k < length os \<and> takes_value (argv ! j) (os ! k)
               \<and> (\<forall>n<k. \<not> takes_value (argv ! j) (os ! n))"
      from scan_args_value [OF v, of opts' am' k] a
      have r: "Suc j < length argv"
        "opts' ! k = (os ! k)\<lparr>m_set := True, m_value := argv ! Suc j\<rparr>"
        by simp_all
      from r show "Suc j < length argv"
        "opts' ! k = (os ! k)\<lparr>m_set := True, m_value := argv ! Suc j\<rparr>"
        by simp_all
      from r(2) show "isSet_opt (opts' ! k)" "getValue_opt (opts' ! k) = argv ! Suc j"
        by (simp_all add: isSet_opt_def getValue_opt_def)
    }
  qed
qed

theorem scan_order_and_value_witness:
  "(1, m_options (example_parser [])) \<in>
      set (scan_visits [''prog'', ''-f'', ''in.txt''] (m_options (example_parser [])) 1 False)
   \<and> takes_value ''-f'' (m_options (example_parser []) ! 1)
   \<and> \<not> takes_value ''-f'' (m_options (example_parser []) ! 0)
   \<and> (\<exists>p'. parse ''prog'' True (example_parser [''prog'', ''-f'', ''in.txt'']) = Some (Return p')
         \<and> m_options p' ! 1 = file_option\<lparr>m_set := True, m_value := ''in.txt''\<rparr>
         \<and> isSet p' file_option \<and> getValue p' file_option = ''in.txt'')
   \<and> map fst (scan_visits [''prog'', ''-g'', ''x'', ''-f''] (m_options (example_parser [])) 1 False)
       = [1, 3]
   \<and> scan_args [''prog'', ''-g'', ''x'', ''-f''] (m_options (example_parser [])) 1 False
       = Inl ''ERROR: Option (-f / --file FILE) requires a value, but none was provided, exiting ...\<newline>''
   \<and> map fst (scan_visits [''prog'', ''-g'', ''x'', ''y'', ''-f'', ''z''] (m_options (example_parser []))
         1 False) = [1, 3, 4]
   \<and> scan_args [''prog'', ''-g'', ''x'', ''y'', ''-f'', ''z''] (m_options (example_parser [])) 1 False
       = Inr ([m_helpOpt (example_parser []), file_option\<lparr>m_set := True, m_value := ''z''\<rparr>,
               group_option\<lparr>m_set := True, m_value := ''x''\<rparr>], True)"
proof -
  let ?argv = "[''prog'', ''-f'', ''in.txt'']"
  let ?opts = "m_options (example_parser [])"
  let ?p = "example_parser ?argv"
  let ?p' = "?p\<lparr>m_options := [m_helpOpt (example_parser []),
      file_option\<lparr>m_set := True, m_value := ''in.txt''\<rparr>, group_option]\<rparr>"
  have visit: "(1, ?opts) \<in> set (scan_visits ?argv ?opts 1 False)"
    by (simp add: example_defs scan_eval)
  have takes: "takes_value (?argv ! 1) (?opts ! 1)"
    and first: "\<forall>n<1. \<not> takes_value (?argv ! 1) (?opts ! n)"
    by (simp_all add: example_defs scan_eval)
  have eq: "eq_option (?opts ! 1) file_option"
    and unique: "\<forall>n<1. \<not> eq_option (?opts ! n) file_option"
    by (simp_all add: example_defs query_eval)
  have ret: "parse ''prog'' True ?p = Some (Return ?p')"
    by (simp add: parse_def example_defs scan_eval query_eval)
  have p: "m_argv ?p = ?argv \<and> m_options ?p = ?opts
      \<and> parse ''prog'' True ?p = Some (Return ?p')"
    using ret by (simp add: example_defs)
  have "\<forall>pFileName requireMatch p p'. m_argv p = ?argv \<and> m_options p = ?opts
         \<and> parse pFileName requireMatch p = Some (Return p')
         \<longrightarrow> (\<exists>am'. scan_args ?argv ?opts 1 False = Inr (m_options p', am'))
           \<and> (\<forall>j os k a. (j, os) \<in> set (scan_visits ?argv ?opts 1 False)
                 \<and> k < length os \<and> takes_value (?argv ! j) (os ! k)
                 \<and> (\<forall>n<k. \<not> takes_value (?argv ! j) (os ! n))
                 \<and> eq_option (os ! k) a \<and> (\<forall>n<k. \<not> eq_option (os ! n) a)
                 \<longrightarrow> isSet p' a \<and> getValue p' a = ?argv ! Suc j)"
    using scan_order_and_value [of ?argv ?opts] by (elim conjE)
  with p have "\<forall>j os k a. (j, os) \<in> set (scan_visits ?argv ?opts 1 False)
                 \<and> k < length os \<and> takes_value (?argv ! j) (os ! k)
                 \<and> (\<forall>n<k. \<not> takes_value (?argv ! j) (os ! n))
                 \<and> eq_option (os ! k) a \<and> (\<forall>n<k. \<not> eq_option (os ! n) a)
                 \<longrightarrow> isSet ?p' a \<and> getValue ?p' a = ?argv ! Suc j"
    by blast
  moreover have "1 < length ?opts"
    by (simp add: example_defs)
  ultimately have "isSet ?p' file_option \<and> getValue ?p' file_option = ?argv ! Suc 1"
    using visit takes first eq unique by blast
  then have q: "isSet ?p' file_option" "getValue ?p' file_option = ''in.txt''"
    by simp_all
  have "takes_value ''-f'' (?opts ! 1)" "\<not> takes_value ''-f'' (?opts ! 0)"
    using takes first by simp_all
  moreover have "m_options ?p' ! 1 = file_option\<lparr>m_set := True, m_value := ''in.txt''\<rparr>"
    by simp
  moreover have "map fst (scan_visits [''prog'', ''-g'', ''x'', ''-f''] ?opts 1 False) = [1, 3]"
    "scan_args [''prog'', ''-g'', ''x'', ''-f''] ?opts 1 False
       = Inl ''ERROR: Option (-f / --file FILE) requires a value, but none was provided, exiting ...\<newline>''"
    "map fst (scan_visits [''prog'', ''-g'', ''x'', ''y'', ''-f'', ''z''] ?opts 1 False) = [1, 3, 4]"
    "scan_args [''prog'', ''-g'', ''x'', ''y'', ''-f'', ''z''] ?opts 1 False
       = Inr ([m_helpOpt (example_parser []), file_option\<lparr>m_set := True, m_value := ''z''\<rparr>,
               group_option\<lparr>m_set := True, m_value := ''x''\<rparr>], True)"
    by (simp_all add: example_defs scan_eval endl_def)
  ultimately show ?thesis
    using visit ret q by blast
qed

text \<open>
  Claim C3. When the scan reads the last token of the argument vector and a
  value-bearing option claims it (\<open>option\<close> being the first such option in
  declaration order), \<open>parse\<close> writes the error line naming that option by its
  primary and its alternate name to \<open>std::cerr\<close> and ends the process with status
  \<open>-1\<close>, whatever \<open>requireMatch\<close> is.
\<close>

theorem parse_value_missing:
  assumes "(j, os) \<in> set (scan_visits (m_argv p) (m_options p) 1 False)"
    and "Suc j = m_argc p"
    and "find (takes_value (m_argv p ! j)) os = Some option"
  shows "parse pFileName requireMatch p =
           Some (Exit (- 1) (cout p)
             (cerr p @ ''ERROR: Option ('' @ m_arg option @ '' / '' @ m_argAlt option
                @ '') requires a value, but none was provided, exiting ...'' @ [CHR 0x0A]))"
proof -
  from assms(2) have "Suc j = length (m_argv p)"
    by (simp add: m_argc_def)
  from scan_args_starved [OF assms(1) this assms(3)]
  have "scan_args (m_argv p) (m_options p) 1 False = Inl (value_missing_msg option)" .
  from parse_exit_scan [OF this] show ?thesis
    by (simp add: value_missing_msg_def endl_def)
qed

theorem parse_value_missing_witness:
  "(1, m_options (example_parser [''prog'', ''-f''])) \<in>
      set (scan_visits (m_argv (example_parser [''prog'', ''-f'']))
             (m_options (example_parser [''prog'', ''-f''])) 1 False)
   \<and> Suc 1 = m_argc (example_parser [''prog'', ''-f''])
   \<and> find (takes_value (m_argv (example_parser [''prog'', ''-f'']) ! 1))
        (m_options (example_parser [''prog'', ''-f''])) = Some file_option
   \<and> parse ''prog'' True (example_parser [''prog'', ''-f'']) =
        Some (Exit (- 1) []
          ''ERROR: Option (-f / --file FILE) requires a value, but none was provided, exiting ...\<newline>'')"
proof -
  have 1: "(1, m_options (example_parser [''prog'', ''-f''])) \<in>
      set (scan_visits (m_argv (example_parser [''prog'', ''-f'']))
             (m_options (example_parser [''prog'', ''-f''])) 1 False)"
    by (simp add: example_defs scan_eval)
  have 2: "Suc 1 = m_argc (example_parser [''prog'', ''-f''])"
    by (simp add: example_defs m_argc_def)
  have 3: "find (takes_value (m_argv (example_parser [''prog'', ''-f'']) ! 1))
        (m_options (example_parser [''prog'', ''-f''])) = Some file_option"
    by (simp add: example_defs scan_eval)
  from parse_value_missing [OF 1 2 3, of "''prog''" True] 1 2 3 show ?thesis
    by (simp add: example_defs)
qed

text \<open>
  Claim C5. When the scan runs to its end, the help option is not set, some option
  matched or no match is required, and the version option is not set, \<open>parse\<close>
  reaches the validation of required options: \<open>std::cerr\<close> receives one line for
  each option that is required and for which \<open>isSet\<close> is false, in declaration
  order, and the process ends with status \<open>-1\<close> after all of these lines if there
  is at least one; otherwise \<open>parse\<close> returns and has written nothing. That other
  options matched (\<open>anyMatch\<close>) does not bypass the validation.
\<close>

theorem parse_required_validation:
  assumes "scan_args (m_argv p) (m_options p) 1 False = Inr (opts, anyMatch)"
    and "\<not> isSet (p\<lparr>m_options := opts\<rparr>) (m_helpOpt p)"
    and "anyMatch \<or> \<not> requireMatch"
    and "\<not> isSet (p\<lparr>m_options := opts\<rparr>) (m_verOpt p)"
  shows "parse pFileName requireMatch p =
           (let missing = filter (\<lambda>option. m_required option \<and> \<not> isSet_opt option) opts;
                err = cerr p @ concat (map required_missing_msg missing)
            in if missing = [] then Some (Return (p\<lparr>m_options := opts\<rparr>))
               else Some (Exit (- 1) (cout p) err))"
  using assms by (auto simp: parse_def Let_def report_required_eq)

theorem parse_required_validation_witness:
  "scan_args (m_argv (example_parser [''prog'', ''-g'', ''x'']))
      (m_options (example_parser [''prog'', ''-g'', ''x''])) 1 False =
     Inr ([m_helpOpt (example_parser []), file_option,
           group_option\<lparr>m_set := True, m_value := ''x''\<rparr>], True)
   \<and> parse ''prog'' True (example_parser [''prog'', ''-g'', ''x'']) =
       Some (Exit (- 1) []
         ''ERROR: Required option (-f / --file FILE) not set, exiting ...\<newline>'')"
proof -
  let ?p = "example_parser [''prog'', ''-g'', ''x'']"
  let ?opts = "[m_helpOpt (example_parser []), file_option,
           group_option\<lparr>m_set := True, m_value := ''x''\<rparr>]"
  have 1: "scan_args (m_argv ?p) (m_options ?p) 1 False = Inr (?opts, True)"
    by (simp add: example_defs scan_eval)
  have 2: "\<not> isSet (?p\<lparr>m_options := ?opts\<rparr>) (m_helpOpt ?p)"
    by (simp add: example_defs query_eval)
  have 3: "True \<or> \<not> True" by simp
  have 4: "\<not> isSet (?p\<lparr>m_options := ?opts\<rparr>) (m_verOpt ?p)"
    by (simp add: example_defs query_eval)
  from parse_required_validation [OF 1 2 3 4, of "''prog''"] 1 show ?thesis
    by (simp add: example_defs query_eval)
qed

text \<open>
  Claim C6. \<open>isSet()\<close> is true exactly when the option was matched or its default is
  not empty, and \<open>getValue()\<close> is the captured value when the option was matched and
  the default otherwise (so the empty string when there is neither). Across a scan
  that runs to its end: an option that no token it was offered matched is still not
  matched, \<open>isSet()\<close> is true exactly if it has a non-empty default, and
  \<open>getValue()\<close> is its default; an option that claimed a token is matched,
  \<open>isSet()\<close> is true and \<open>getValue()\<close> is its captured value.
\<close>

theorem isSet_getValue_default:
  "isSet_opt opt = (m_set opt \<or> m_default opt \<noteq> [])
   \<and> getValue_opt opt = (if m_set opt then m_value opt else m_default opt)
   \<and> (\<not> m_set opt \<and> m_default opt = [] \<longrightarrow> \<not> isSet_opt opt \<and> getValue_opt opt = [])
   \<and> (scan_args argv opts 1 False = Inr (opts', am') \<and> k < length opts \<and> \<not> m_set (opts ! k)
        \<and> (\<forall>(j, os) \<in> set (scan_visits argv opts 1 False). \<not> fst (check (os ! k) (argv ! j)))
        \<longrightarrow> \<not> m_set (opts' ! k)
          \<and> isSet_opt (opts' ! k) = (m_default (opts ! k) \<noteq> [])
          \<and> getValue_opt (opts' ! k) = m_default (opts ! k))
   \<and> (scan_args argv opts 1 False = Inr (opts', am')
        \<and> (j, os) \<in> set (scan_visits argv opts 1 False) \<and> k < length os
        \<and> fst (check (os ! k) (argv ! j))
        \<longrightarrow> m_set (opts' ! k) \<and> isSet_opt (opts' ! k)
          \<and> getValue_opt (opts' ! k) = m_value (opts' ! k)
          \<and> m_default (opts' ! k) = m_default (os ! k))"
proof (intro conjI impI)
  show "isSet_opt opt = (m_set opt \<or> m_default opt \<noteq> [])"
    by (simp add: isSet_opt_def)
  show "getValue_opt opt = (if m_set opt then m_value opt else m_default opt)"
    by (simp add: getValue_opt_def)
  show "\<not> isSet_opt opt" "getValue_opt opt = []" if "\<not> m_set opt \<and> m_default opt = []"
    using that by (simp_all add: isSet_opt_def getValue_opt_def)
  {
    assume a: "scan_args argv opts 1 False = Inr (opts', am') \<and> k < length opts
        \<and> \<not> m_set (opts ! k)
        \<and> (\<forall>(j, os) \<in> set (scan_visits argv opts 1 False). \<not> fst (check (os ! k) (argv ! j)))"
    then have "opts' ! k = opts ! k"
      using scan_args_never_matched [of argv opts 1 False opts' am' k] by blast
    with a show "\<not> m_set (opts' ! k)" "isSet_opt (opts' ! k) = (m_default (opts ! k) \<noteq> [])"
      "getValue_opt (opts' ! k) = m_default (opts ! k)"
      by (simp_all add: isSet_opt_def getValue_opt_def)
  }
  {
    assume a: "scan_args argv opts 1 False = Inr (opts', am')
        \<and> (j, os) \<in> set (scan_visits argv opts 1 False) \<and> k < length os
        \<and> fst (check (os ! k) (argv ! j))"
    then obtain v where "opts' ! k = (os ! k)\<lparr>m_set := True, m_value := v\<rparr>"
      using scan_args_matched [of j os argv opts 1 False opts' am' k] by blast
    then show "m_set (opts' ! k)" "isSet_opt (opts' ! k)"
      "getValue_opt (opts' ! k) = m_value (opts' ! k)" "m_default (opts' ! k) = m_default (os ! k)"
      by (simp_all add: isSet_opt_def getValue_opt_def)
  }
qed

theorem isSet_getValue_default_witness:
  "scan_args [''prog'', ''-f'', ''in.txt''] [file_option, output_option] 1 False =
      Inr ([file_option\<lparr>m_set := True, m_value := ''in.txt''\<rparr>, output_option], True)
   \<and> \<not> m_set output_option
   \<and> scan_visits [''prog'', ''-f'', ''in.txt''] [file_option, output_option] 1 False =
       [(1, [file_option, output_option])]
   \<and> \<not> fst (check output_option ''-f'')
   \<and> isSet_opt output_option \<and> getValue_opt output_option = ''out.txt''
   \<and> isSet_opt (file_option\<lparr>m_set := True, m_value := ''in.txt''\<rparr>)
   \<and> getValue_opt (file_option\<lparr>m_set := True, m_value := ''in.txt''\<rparr>) = ''in.txt''
   \<and> \<not> isSet_opt group_option \<and> getValue_opt group_option = []"
  using isSet_getValue_default [of output_option "[''prog'', ''-f'', ''in.txt'']"
      "[file_option, output_option]"
      "[file_option\<lparr>m_set := True, m_value := ''in.txt''\<rparr>, output_option]" True 1 1
      "[file_option, output_option]"]
    isSet_getValue_default [of group_option "[]" "[]" "[]" False 0 0 "[]"]
  by (simp add: example_defs scan_eval query_eval output_option_def CLO_default_def)

section \<open>The queries\<close>

lemmas split_eval = getValueList_def splitString_def splitString_loop.simps getline_def Let_def

text \<open>
  Claim C7. Two options are equal when their primary name, alternate name and
  description are equal; value and matched state play no part. The three queries of
  the parser give the same answers for equal arguments. When a registered option
  equals the argument and no option registered before it does, the queries answer
  with that live instance: its \<open>isSet()\<close>, its \<open>getValue()\<close>, and its value split into
  a list. When no registered option equals the argument, the answers are \<open>False\<close>,
  the empty string and the empty list.
\<close>

theorem lookup_by_declaration:
  "eq_option a b = (m_arg a = m_arg b \<and> m_argAlt a = m_argAlt b \<and> m_desc a = m_desc b)
   \<and> (eq_option a b \<longrightarrow>
        isSet p a = isSet p b \<and> getValue p a = getValue p b
        \<and> getValueList p a delim = getValueList p b delim)
   \<and> (k < length (m_options p) \<and> eq_option (m_options p ! k) a
        \<and> (\<forall>n<k. \<not> eq_option (m_options p ! n) a) \<longrightarrow>
        isSet p a = isSet_opt (m_options p ! k)
        \<and> getValue p a = getValue_opt (m_options p ! k)
        \<and> getValueList p a delim = splitString (getValue_opt (m_options p ! k)) delim)
   \<and> ((\<forall>r \<in> set (m_options p). \<not> eq_option r a) \<longrightarrow>
        isSet p a = False \<and> getValue p a = [] \<and> getValueList p a delim = [])"
proof (intro conjI impI)
  show "eq_option a b = (m_arg a = m_arg b \<and> m_argAlt a = m_argAlt b \<and> m_desc a = m_desc b)"
    by (simp add: eq_option_def)
  show "isSet p a = isSet p b" "getValue p a = getValue p b"
    "getValueList p a delim = getValueList p b delim" if "eq_option a b"
    using find_option_cong [OF that, of "m_options p"]
    by (simp_all add: isSet_def getValue_def getValueList_def)
  {
    assume "k < length (m_options p) \<and> eq_option (m_options p ! k) a
        \<and> (\<forall>n<k. \<not> eq_option (m_options p ! n) a)"
    then have "find_option (m_options p) a = Some (m_options p ! k)"
      using find_option_first by blast
    then show "isSet p a = isSet_opt (m_options p ! k)"
      "getValue p a = getValue_opt (m_options p ! k)"
      "getValueList p a delim = splitString (getValue_opt (m_options p ! k)) delim"
      by (simp_all add: isSet_def getValue_def getValueList_def)
  }
  {
    assume "\<forall>r \<in> set (m_options p). \<not> eq_option r a"
    then have "find_option (m_options p) a = None"
      by (rule find_option_none)
    then show "isSet p a = False" "getValue p a = []" "getValueList p a delim = []"
      by (simp_all add: isSet_def getValue_def getValueList_def)
  }
qed

theorem lookup_by_declaration_witness:
  "eq_option (CLO ''-f'' ''--file FILE'' ''Input file'' ''other'' HasValue_No Required_No Separator_No)
      file_option
   \<and> isSet ((example_parser [''prog'', ''-f'', ''in.txt''])
         \<lparr>m_options := [m_helpOpt (example_parser []),
             file_option\<lparr>m_set := True, m_value := ''in.txt''\<rparr>, group_option]\<rparr>)
       (CLO ''-f'' ''--file FILE'' ''Input file'' ''other'' HasValue_No Required_No Separator_No)
   \<and> getValue ((example_parser [''prog'', ''-f'', ''in.txt''])
         \<lparr>m_options := [m_helpOpt (example_parser []),
             file_option\<lparr>m_set := True, m_value := ''in.txt''\<rparr>, group_option]\<rparr>)
       (CLO ''-f'' ''--file FILE'' ''Input file'' ''other'' HasValue_No Required_No Separator_No)
       = ''in.txt''
   \<and> getValueList ((example_parser [''prog'', ''-f'', ''in.txt''])
         \<lparr>m_options := [m_helpOpt (example_parser []),
             file_option\<lparr>m_set := True, m_value := ''in.txt''\<rparr>, group_option]\<rparr>)
       (CLO ''-f'' ''--file FILE'' ''Input file'' ''other'' HasValue_No Required_No Separator_No)
       '','' = [''in.txt'']
   \<and> \<not> isSet (example_parser [''prog'']) output_option
   \<and> getValue (example_parser [''prog'']) output_option = []
   \<and> getValueList (example_parser [''prog'']) output_option '','' = []"
  using lookup_by_declaration [of
      "CLO ''-f'' ''--file FILE'' ''Input file'' ''other'' HasValue_No Required_No Separator_No"
      file_option
      "(example_parser [''prog'', ''-f'', ''in.txt''])
         \<lparr>m_options := [m_helpOpt (example_parser []),
             file_option\<lparr>m_set := True, m_value := ''in.txt''\<rparr>, group_option]\<rparr>"
      "'',''" 1]
    lookup_by_declaration [of output_option output_option "example_parser [''prog'']" "'',''" 0]
  by (simp add: example_defs query_eval split_eval output_option_def CLO_default_def)

lemma splitString_loop_Nil: "splitString_loop [] d acc = acc"
  by (simp add: splitString_loop.simps getline_def)

lemma splitString_loop_step:
  "s \<noteq> [] \<Longrightarrow> splitString_loop s d acc =
     splitString_loop (drop (Suc (length (takeWhile (\<lambda>c. c \<noteq> d) s))) s) d
       (acc @ [takeWhile (\<lambda>c. c \<noteq> d) s])"
  by (subst splitString_loop.simps) (simp add: getline_def Let_def)

lemma splitString_loop_acc:
  "splitString_loop s d acc = acc @ splitString_loop s d []"
proof (induction s arbitrary: acc rule: measure_induct_rule [of length])
  case (less s)
  show ?case
  proof (cases "s = []")
    case True
    then show ?thesis by (simp add: splitString_loop_Nil)
  next
    case False
    let ?item = "takeWhile (\<lambda>c. c \<noteq> d) s"
    let ?rest = "drop (Suc (length ?item)) s"
    from False have shorter: "length ?rest < length s" by simp
    have "splitString_loop s d acc = splitString_loop ?rest d (acc @ [?item])"
      using False by (rule splitString_loop_step)
    also have "\<dots> = (acc @ [?item]) @ splitString_loop ?rest d []"
      using less [OF shorter] .
    also have "\<dots> = acc @ splitString_loop ?rest d ([] @ [?item])"
      using less [OF shorter, of "[?item]"] by simp
    also have "\<dots> = acc @ splitString_loop s d []"
      using splitString_loop_step [OF False, of d "[]"] by simp
    finally show ?thesis .
  qed
qed

lemma splitString_loop_unfold:
  "s \<noteq> [] \<Longrightarrow> splitString_loop s d [] =
     takeWhile (\<lambda>c. c \<noteq> d) s
       # splitString_loop (drop (Suc (length (takeWhile (\<lambda>c. c \<noteq> d) s))) s) d []"
  using splitString_loop_step [of s d "[]"]
    splitString_loop_acc [of "drop (Suc (length (takeWhile (\<lambda>c. c \<noteq> d) s))) s" d
      "[takeWhile (\<lambda>c. c \<noteq> d) s]"]
  by simp

lemma splitString_loop_items:
  "item \<in> set (splitString_loop s d []) \<Longrightarrow> d \<notin> set item"
proof (induction s rule: measure_induct_rule [of length])
  case (less s)
  show ?case
  proof (cases "s = []")
    case True
    with less.prems show ?thesis by (simp add: splitString_loop_Nil)
  next
    case False
    let ?item = "takeWhile (\<lambda>c. c \<noteq> d) s"
    let ?rest = "drop (Suc (length ?item)) s"
    from False have shorter: "length ?rest < length s" by simp
    from less.prems False have "item = ?item \<or> item \<in> set (splitString_loop ?rest d [])"
      by (simp add: splitString_loop_unfold)
    then show ?thesis
    proof
      assume "item = ?item"
      then show ?thesis by (auto dest: set_takeWhileD)
    next
      assume "item \<in> set (splitString_loop ?rest d [])"
      then show ?thesis using less.IH [OF shorter] by simp
    qed
  qed
qed

lemma splitString_loop_join:
  "s \<noteq> [] \<Longrightarrow> concat (map (\<lambda>item. item @ [d]) (splitString_loop s d []))
     = (if last s = d then s else s @ [d])"
proof (induction s rule: measure_induct_rule [of length])
  case (less s)
  let ?item = "takeWhile (\<lambda>c. c \<noteq> d) s"
  let ?tail = "dropWhile (\<lambda>c. c \<noteq> d) s"
  let ?rest = "drop (Suc (length ?item)) s"
  from less.prems have shorter: "length ?rest < length s" by simp
  have s: "s = ?item @ ?tail" by simp
  have rest: "?rest = tl ?tail"
    by (metis append_eq_conv_conj drop_Suc s tl_drop)
  have unfold: "concat (map (\<lambda>item. item @ [d]) (splitString_loop s d []))
      = ?item @ [d] @ concat (map (\<lambda>item. item @ [d]) (splitString_loop ?rest d []))"
    using less.prems by (simp add: splitString_loop_unfold)
  show ?case
  proof (cases "?tail = []")
    case True
    then have all: "?item = s" and no: "d \<notin> set s"
      by (auto simp: dropWhile_eq_Nil_conv)
    have "?rest = []" by (simp only: rest True list.sel)
    moreover from no less.prems have "last s \<noteq> d"
      using last_in_set by metis
    ultimately show ?thesis
      using unfold all by (simp add: splitString_loop_Nil)
  next
    case False
    then have hd: "hd ?tail = d"
      using hd_dropWhile [of "\<lambda>c. c \<noteq> d" s] by simp
    with False have tail: "?tail = d # ?rest"
      using rest by (metis list.collapse)
    with s have s': "s = ?item @ d # ?rest" by simp
    show ?thesis
    proof (cases "?rest = []")
      case True
      with s' have "s = ?item @ [d]" by simp
      then have "last s = d" by (metis last_snoc)
      with unfold True \<open>s = ?item @ [d]\<close> show ?thesis
        by (simp add: splitString_loop_Nil)
    next
      case nonempty: False
      from s' nonempty have "last s = last ?rest"
        by (metis last_ConsR last_appendR list.distinct(1))
      moreover have "concat (map (\<lambda>item. item @ [d]) (splitString_loop ?rest d []))
          = (if last ?rest = d then ?rest else ?rest @ [d])"
        using less.IH [OF shorter nonempty] .
      ultimately show ?thesis
        using unfold s' by (metis append.assoc append_Cons append_Nil)
    qed
  qed
qed

lemma splitString_Cons: "splitString s (c # cs) = splitString_loop s c []"
  by (simp add: splitString_def)

lemma splitString_Nil: "splitString s [] = splitString_loop s CHR '','' []"
  by (simp add: splitString_def)

text \<open>
  Claim C8. \<open>getValueList\<close> uses only the first character of the delimiter string,
  and the comma when that string is empty. For a registered option the result is the
  resolved value split at that character: no item contains the character, an empty
  value gives no item, and the items, each followed by the character, spell the
  value (with the character appended unless the value already ends with it). The
  value \<open>a,b,c\<close> with the delimiter \<open>,\<close> gives the three items \<open>a\<close>, \<open>b\<close>,
  \<open>c\<close>, and the value \<open>a\<close> gives the single item \<open>a\<close>. For a declaration that is
  not registered the result is the empty list.
\<close>

theorem getValueList_first_delimiter:
  "getValueList p opt (c # cs) = getValueList p opt [c]
   \<and> getValueList p opt [] = getValueList p opt '',''
   \<and> (find_option (m_options p) opt = None \<longrightarrow> getValueList p opt delim = [])
   \<and> (find_option (m_options p) opt = Some r \<longrightarrow>
        getValueList p opt (c # cs) = splitString_loop (getValue_opt r) c []
        \<and> (\<forall>item \<in> set (getValueList p opt (c # cs)). c \<notin> set item)
        \<and> (getValue_opt r = [] \<longrightarrow> getValueList p opt (c # cs) = [])
        \<and> (getValue_opt r \<noteq> [] \<longrightarrow>
              concat (map (\<lambda>item. item @ [c]) (getValueList p opt (c # cs)))
                = (if last (getValue_opt r) = c then getValue_opt r else getValue_opt r @ [c]))
        \<and> (getValue_opt r = ''a,b,c'' \<longrightarrow> getValueList p opt '','' = [''a'', ''b'', ''c''])
        \<and> (getValue_opt r = ''a'' \<longrightarrow> getValueList p opt '','' = [''a'']))"
proof (intro conjI impI)
  show "getValueList p opt (c # cs) = getValueList p opt [c]"
    by (simp add: getValueList_def splitString_Cons split: option.splits)
  show "getValueList p opt [] = getValueList p opt '',''"
    by (simp add: getValueList_def splitString_Cons splitString_Nil split: option.splits)
  show "getValueList p opt delim = []" if "find_option (m_options p) opt = None"
    using that by (simp add: getValueList_def)
next
  assume r: "find_option (m_options p) opt = Some r"
  then show eq: "getValueList p opt (c # cs) = splitString_loop (getValue_opt r) c []"
    by (simp add: getValueList_def splitString_Cons)
  show "\<forall>item \<in> set (getValueList p opt (c # cs)). c \<notin> set item"
    unfolding eq using splitString_loop_items by blast
  show "getValueList p opt (c # cs) = []" if "getValue_opt r = []"
    unfolding eq using that by (simp add: splitString_loop_Nil)
  show "concat (map (\<lambda>item. item @ [c]) (getValueList p opt (c # cs)))
      = (if last (getValue_opt r) = c then getValue_opt r else getValue_opt r @ [c])"
    if "getValue_opt r \<noteq> []"
    unfolding eq using that by (rule splitString_loop_join)
  show "getValueList p opt '','' = [''a'', ''b'', ''c'']" if "getValue_opt r = ''a,b,c''"
    using r that by (simp add: split_eval)
  show "getValueList p opt '','' = [''a'']" if "getValue_opt r = ''a''"
    using r that by (simp add: split_eval)
qed

theorem getValueList_first_delimiter_witness:
  "find_option [file_option\<lparr>m_set := True, m_value := ''a,b;c,d''\<rparr>] file_option
      = Some (file_option\<lparr>m_set := True, m_value := ''a,b;c,d''\<rparr>)
   \<and> getValueList ((example_parser [])
         \<lparr>m_options := [file_option\<lparr>m_set := True, m_value := ''a,b;c,d''\<rparr>]\<rparr>) file_option '';,''
       = [''a,b'', ''c,d'']
   \<and> getValueList ((example_parser [])
         \<lparr>m_options := [file_option\<lparr>m_set := True, m_value := ''a,b;c,d''\<rparr>]\<rparr>) file_option []
       = [''a'', ''b;c'', ''d'']
   \<and> getValueList ((example_parser [])
         \<lparr>m_options := [file_option\<lparr>m_set := True, m_value := ''a,b,c''\<rparr>]\<rparr>) file_option '',''
       = [''a'', ''b'', ''c'']
   \<and> getValueList ((example_parser [])
         \<lparr>m_options := [file_option\<lparr>m_set := True, m_value := ''a''\<rparr>]\<rparr>) file_option '',''
       = [''a'']
   \<and> find_option (m_options (example_parser [])) output_option = None
   \<and> getValueList (example_parser []) output_option '','' = []"
  using getValueList_first_delimiter [of
      "(example_parser [])\<lparr>m_options := [file_option\<lparr>m_set := True, m_value := ''a,b;c,d''\<rparr>]\<rparr>"
      file_option "CHR '';''" "'',''" "[]" "file_option\<lparr>m_set := True, m_value := ''a,b;c,d''\<rparr>"]
    getValueList_first_delimiter [of
      "(example_parser [])\<lparr>m_options := [file_option\<lparr>m_set := True, m_value := ''a,b,c''\<rparr>]\<rparr>"
      file_option "CHR '',''" "[]" "[]" "file_option\<lparr>m_set := True, m_value := ''a,b,c''\<rparr>"]
    getValueList_first_delimiter [of "example_parser []" output_option "CHR '',''" "[]" "'',''"
      output_option]
  by (simp add: example_defs query_eval split_eval output_option_def CLO_default_def)

section \<open>Separators\<close>

lemma check_separator: "check separator tok = (False, separator)"
  by (simp add: check_def separator_def CLO_def extract_word_def)

lemma insert_at_Nil: "insert_at n x [] = [x]"
  by (simp add: insert_at_def)

lemma insert_at_0: "insert_at 0 x xs = x # xs"
  by (simp add: insert_at_def)

lemma insert_at_Suc: "insert_at (Suc n) x (y # ys) = y # insert_at n x ys"
  by (simp add: insert_at_def)

lemma check_options_separator_head:
  "check_options argv tok (separator # rest) i am
     = processed separator (check_options argv tok rest i am)"
  unfolding check_options_Cons by (simp add: check_separator)

lemma processed_insert:
  "processed option (case r of Inl e \<Rightarrow> Inl e
       | Inr (os, i', am') \<Rightarrow> Inr (insert_at n x os, i', am'))
     = (case processed option r of Inl e \<Rightarrow> Inl e
       | Inr (os, i', am') \<Rightarrow> Inr (insert_at (Suc n) x os, i', am'))"
  by (auto simp: processed_def insert_at_Suc split: sum.splits)

lemma check_options_separator:
  "check_options argv tok (insert_at n separator opts) i am
     = (case check_options argv tok opts i am of
          Inl e \<Rightarrow> Inl e
        | Inr (os, i', am') \<Rightarrow> Inr (insert_at n separator os, i', am'))"
proof (induction opts arbitrary: n i am)
  case Nil
  show ?case
    using check_options_separator_head [of argv tok "[]" i am]
    by (simp add: insert_at_Nil processed_def)
next
  case (Cons option rest)
  show ?case
  proof (cases n)
    case 0
    show ?thesis
      unfolding 0 insert_at_0 check_options_separator_head
      by (auto simp: processed_def split: sum.splits)
  next
    case (Suc m)
    show ?thesis
      unfolding Suc insert_at_Suc check_options_Cons [of argv tok option]
      by (simp add: Cons.IH processed_insert)
  qed
qed

lemma scan_args_separator:
  "scan_args argv (insert_at n separator opts) i am
     = (case scan_args argv opts i am of
          Inl e \<Rightarrow> Inl e
        | Inr (os, am') \<Rightarrow> Inr (insert_at n separator os, am'))"
proof (induction argv opts i am rule: scan_args.induct)
  case (1 argv opts i am)
  show ?case
  proof (cases "i < length argv")
    case False
    then show ?thesis by (simp add: scan_args_done)
  next
    case True
    show ?thesis
    proof (cases "check_options argv (argv ! i) opts i am")
      case (Inl e)
      then have "check_options argv (argv ! i) (insert_at n separator opts) i am = Inl e"
        by (simp add: check_options_separator)
      with True Inl show ?thesis by (simp add: scan_args_exit)
    next
      case (Inr x)
      then obtain os1 i1 am1 where c: "check_options argv (argv ! i) opts i am = Inr (os1, i1, am1)"
        by (cases x) auto
      then have c': "check_options argv (argv ! i) (insert_at n separator opts) i am
          = Inr (insert_at n separator os1, i1, am1)"
        by (simp add: check_options_separator)
      from "1.IH" [OF True c refl refl] show ?thesis
        by (simp add: scan_args_step [OF True c] scan_args_step [OF True c'])
    qed
  qed
qed

lemma report_required_separator:
  "report_required (insert_at n separator opts) err allRequiredSet
     = report_required opts err allRequiredSet"
proof -
  let ?missing = "\<lambda>option. m_required option \<and> \<not> isSet_opt option"
  have "\<not> m_required separator"
    by (simp add: separator_def CLO_def)
  then have "filter ?missing (insert_at n separator opts)
      = filter ?missing (take n opts) @ filter ?missing (drop n opts)"
    by (simp add: insert_at_def)
  also have "\<dots> = filter ?missing (take n opts @ drop n opts)"
    by (simp only: filter_append)
  also have "\<dots> = filter ?missing opts"
    by (simp only: append_take_drop_id)
  finally show ?thesis
    by (simp add: report_required_eq)
qed

text \<open>
  Claim C10. The entry \<open>addSeparator\<close> appends has empty names and no value. It
  answers \<open>False\<close> to every token, the empty token included, and stays unset and
  unchanged; it never takes a value. Adding a separator anywhere among the options
  changes nothing in what the inner loop and the whole scan do with a token: the same
  exit or the same index and \<open>anyMatch\<close>, and the same options with the separator,
  unchanged, among them. The validation of required options reports the same with
  and without it.
\<close>

theorem separator_inert:
  "m_options (addSeparator p) = m_options p @ [separator]
   \<and> check separator tok = (False, separator)
   \<and> \<not> takes_value tok separator
   \<and> check_options argv tok (insert_at n separator opts) i am
       = (case check_options argv tok opts i am of
            Inl e \<Rightarrow> Inl e
          | Inr (os, i', am') \<Rightarrow> Inr (insert_at n separator os, i', am'))
   \<and> scan_args argv (insert_at n separator opts) i am
       = (case scan_args argv opts i am of
            Inl e \<Rightarrow> Inl e
          | Inr (os, am') \<Rightarrow> Inr (insert_at n separator os, am'))
   \<and> report_required (insert_at n separator opts) err allRequiredSet
       = report_required opts err allRequiredSet"
  using check_options_separator [of argv tok n opts i am] scan_args_separator [of argv n opts i am]
    report_required_separator [of n opts err allRequiredSet]
  by (simp add: addSeparator_def check_separator takes_value_def)

theorem separator_inert_witness:
  "m_options (addSeparator (addOption (CommandLineParser [''prog'', [], ''-g'', ''x''] [] [])
       file_option)) = [file_option, separator]
   \<and> check separator [] = (False, separator)
   \<and> scan_args [''prog'', [], ''-g'', ''x''] (insert_at 1 separator [file_option, group_option])
         1 False
       = Inr ([file_option, separator, group_option\<lparr>m_set := True, m_value := ''x''\<rparr>], True)
   \<and> scan_args [''prog'', []] (insert_at 0 separator []) 1 False = Inr ([separator], False)
   \<and> report_required (insert_at 1 separator [file_option, group_option]) [] True
       = (''ERROR: Required option (-f / --file FILE) not set, exiting ...\<newline>'', False)"
  using separator_inert [of "addOption (CommandLineParser [''prog'', [], ''-g'', ''x''] [] [])
         file_option" "[]" "[''prog'', [], ''-g'', ''x'']" 1 "[file_option, group_option]" 1 False
         "[]" True]
    separator_inert [of "CommandLineParser [] [] []" "[]" "[''prog'', []]" 0 "[]" 1 False "[]" True]
  by (simp add: example_defs scan_eval query_eval insert_at_def separator_def addSeparator_def)

section \<open>Rendering the help\<close>

lemma last_index_None: "last_index ch s = None \<longleftrightarrow> ch \<notin> set s"
  by (induction s) (auto split: option.splits)

lemma find_last_of_npos: "ch \<notin> set s \<Longrightarrow> find_last_of s ch pos = npos"
proof -
  assume "ch \<notin> set s"
  then have "ch \<notin> set (take (Suc (unat pos)) s)"
    by (auto dest: in_set_takeD)
  then have "last_index ch (take (Suc (unat pos)) s) = None"
    by (simp add: last_index_None)
  then show ?thesis by (simp add: find_last_of_def)
qed

text \<open>A text that is too long for the line and has no space: \<open>find_last_of\<close> returns
  \<open>npos\<close>, the text stays as it is, and the loop never ends.\<close>

lemma wrap_desc_no_space:
  assumes "CHR '' '' \<notin> set desc"
    and "maxLineLen < of_nat (length desc) + spaceArgDesc + addSpace"
  shows "wrap_desc addSpace desc os = None"
proof (rule ccontr)
  let ?stuck = "\<lambda>a d. CHR '' '' \<notin> set d \<and> maxLineLen < of_nat (length d) + spaceArgDesc + a"
  assume "wrap_desc addSpace desc os \<noteq> None"
  then obtain y where y: "wrap_desc addSpace desc os = Some y" by auto
  have step: "\<not> ?stuck a d"
    if IH: "\<And>a d os y. f a d os = Some y \<Longrightarrow> \<not> ?stuck a d"
      and body: "(if maxLineLen < of_nat (length d) + spaceArgDesc + a
        then let spacePos = find_last_of d CHR '' '' (maxLineLen - (spaceArgDesc + a))
             in f a (drop (unat (spacePos + 1)) d)
                  (os @ take (unat spacePos) d @ endl @ put_left (setw (spaceArgDesc + a)) [])
        else Some (d, os)) = Some y"
    for f :: "size_t \<Rightarrow> string \<Rightarrow> string \<Rightarrow> (string \<times> string) option" and a d os y
  proof
    assume stuck: "?stuck a d"
    then have "find_last_of d CHR '' '' (maxLineLen - (spaceArgDesc + a)) = npos"
      by (simp add: find_last_of_npos)
    with stuck body obtain os' where "f a d os' = Some y"
      by (auto simp: npos_def Let_def)
    from IH [OF this] stuck show False by simp
  qed
  have "\<not> ?stuck addSpace desc"
    by (rule wrap_desc.raw_induct [where P = "\<lambda>a d os y. \<not> ?stuck a d", OF step y])
  with assms show False by simp
qed

lemma wrap_desc_short:
  "\<not> maxLineLen < of_nat (length desc) + spaceArgDesc + addSpace
     \<Longrightarrow> wrap_desc addSpace desc os = Some (desc, os)"
  by (subst wrap_desc.simps) simp

lemma wrap_desc_step:
  "maxLineLen < of_nat (length desc) + spaceArgDesc + addSpace
     \<Longrightarrow> wrap_desc addSpace desc os =
       wrap_desc addSpace
         (drop (unat (find_last_of desc CHR '' '' (maxLineLen - (spaceArgDesc + addSpace)) + 1)) desc)
         (os @ take (unat (find_last_of desc CHR '' '' (maxLineLen - (spaceArgDesc + addSpace)))) desc
            @ endl @ put_left (setw (spaceArgDesc + addSpace)) [])"
  by (subst wrap_desc.simps) (simp add: Let_def)

lemmas render_eval = put_option_def maxLineLen_def spaceArgDesc_def find_last_of_def
  url_option_def CLO_plain_def CLO_def setSpaceAdd_def Let_def

lemma url_wrap_0:
  "wrap_desc 0 ''See https://github.com/fporrmann/CommandLineParser/blob/main/README.md#usage-of-the-parser'' os = None"
  by (subst wrap_desc_step) (simp_all add: wrap_desc_no_space render_eval)

lemma url_wrap_10:
  "wrap_desc 10 ''See https://github.com/fporrmann/CommandLineParser/blob/main/README.md#usage-of-the-parser'' os = None"
  by (subst wrap_desc_step) (simp_all add: wrap_desc_no_space render_eval)

lemma last_index_Some: "last_index ch s = Some k \<Longrightarrow> k < length s \<and> s ! k = ch"
  by (induction s arbitrary: k) (auto split: option.splits if_splits)

text \<open>The position \<open>desc.substr(spacePos + 1)\<close> starts at is never beyond the end of
  the string, so \<open>substr\<close> does not throw there.\<close>

lemma find_last_of_in_range: "unat (find_last_of s ch pos + 1) \<le> length s"
proof (cases "last_index ch (take (Suc (unat pos)) s)")
  case None
  then show ?thesis by (simp add: find_last_of_def npos_def)
next
  case (Some k)
  from last_index_Some [OF Some] have k: "Suc k \<le> length s" by simp
  have "(of_nat k + 1 :: size_t) = of_nat (Suc k)" by simp
  then have "unat (of_nat k + 1 :: size_t) = Suc k mod 2 ^ 64"
    by (simp only: unat_of_nat) simp
  also have "\<dots> \<le> Suc k" by (rule mod_less_eq_dividend)
  finally show ?thesis using k Some by (simp add: find_last_of_def)
qed

text \<open>The loop ends when every remainder of the description that is too long for the
  line has a space within the budget.\<close>

lemma wrap_desc_ends:
  assumes "length desc < 2 ^ 64"
    and "\<And>n. maxLineLen < of_nat (length (drop n desc)) + spaceArgDesc + addSpace
      \<Longrightarrow> CHR '' '' \<in> set (take (Suc (unat (maxLineLen - (spaceArgDesc + addSpace)))) (drop n desc))"
  shows "\<exists>r. wrap_desc addSpace desc os = Some r"
  using assms
proof (induction desc arbitrary: os rule: measure_induct_rule [of length])
  case (less desc)
  let ?pos = "maxLineLen - (spaceArgDesc + addSpace)"
  show ?case
  proof (cases "maxLineLen < of_nat (length desc) + spaceArgDesc + addSpace")
    case False
    then show ?thesis by (simp add: wrap_desc_short)
  next
    case True
    with less.prems(2) [of 0] have "CHR '' '' \<in> set (take (Suc (unat ?pos)) desc)"
      by simp
    then obtain k where k: "last_index CHR '' '' (take (Suc (unat ?pos)) desc) = Some k"
      using last_index_None [of "CHR '' ''" "take (Suc (unat ?pos)) desc"] by auto
    from last_index_Some [OF k] have kd: "k < length desc"
      by simp
    with less.prems(1) have k64: "Suc k < 2 ^ 64"
      by simp
    from k have f: "find_last_of desc CHR '' '' ?pos = of_nat k"
      by (simp add: find_last_of_def)
    have u: "unat (of_nat k + 1 :: size_t) = Suc k"
    proof -
      have "(of_nat k + 1 :: size_t) = of_nat (Suc k)" by simp
      moreover have "unat (of_nat (Suc k) :: size_t) = Suc k"
        using k64 by (intro of_nat_inverse [OF refl]) simp
      ultimately show ?thesis by (simp only:)
    qed
    let ?rest = "drop (Suc k) desc"
    from kd have shorter: "length ?rest < length desc" by simp
    from less.prems(1) have small: "length ?rest < 2 ^ 64" by simp
    have "\<exists>r. wrap_desc addSpace ?rest os' = Some r" for os'
    proof (rule less.IH [OF shorter small])
      fix n
      assume "maxLineLen < of_nat (length (drop n ?rest)) + spaceArgDesc + addSpace"
      with less.prems(2) [of "n + Suc k"]
      show "CHR '' '' \<in> set (take (Suc (unat ?pos)) (drop n ?rest))"
        by simp
    qed
    then show ?thesis
      by (simp add: wrap_desc_step [OF True] f u)
  qed
qed

lemma put_option_url_never_ends:
  "put_option url_option os = None \<and> put_option (setSpaceAdd url_option 10) os = None"
  by (simp add: render_eval url_wrap_0 url_wrap_10)

lemma put_options_never_ends:
  "option \<in> set opts \<Longrightarrow> \<forall>os. put_option option os = None \<Longrightarrow> put_options opts os = None"
  by (induction opts arbitrary: os) (auto split: option.splits)

lemma parse_help_exit:
  assumes "scan_args (m_argv p) (m_options p) 1 False = Inr (opts, anyMatch)"
    and "isSet (p\<lparr>m_options := opts\<rparr>) (m_helpOpt p) \<or> (\<not> anyMatch \<and> requireMatch)"
    and "updateAddSpaces opts = Some opts'"
    and "put_options opts' (cout p @ ''Usage: '' @ pFileName @ '' option'' @ endl @ endl) = Some os"
  shows "parse pFileName requireMatch p = Some (Exit 0 os (cerr p))"
  using assms by (auto simp: parse_def printHelp_def Let_def)

lemma parse_help_never_ends:
  assumes "scan_args (m_argv p) (m_options p) 1 False = Inr (opts, anyMatch)"
    and "isSet (p\<lparr>m_options := opts\<rparr>) (m_helpOpt p) \<or> (\<not> anyMatch \<and> requireMatch)"
    and "updateAddSpaces opts = Some opts'"
    and "put_options opts' (cout p @ ''Usage: '' @ pFileName @ '' option'' @ endl @ endl) = None"
  shows "parse pFileName requireMatch p = None"
  using assms by (auto simp: parse_def printHelp_def Let_def)

lemmas example_defs' = url_parser_def addOption_def addHelpOption_def CommandLineParser_def
  CLO_plain_def CLO_def

text \<open>
  Claim C9 says that rendering an option ends for every description. The loop relies
  on \<open>find_last_of\<close> finding a space within the budget. For \<open>url_option\<close>, whose
  description is the word \<open>See\<close> followed by a link of 86 characters, the first round
  breaks after \<open>See\<close>; in the second round no space is found, \<open>find_last_of\<close>
  returns \<open>npos\<close>, \<open>substr(npos + 1)\<close> is the whole remaining text, and the loop
  goes on for ever with the same text. This holds with the column hint \<open>0\<close> of a
  fresh option and with the hint \<open>10\<close> that \<open>printHelp\<close> sets beside the help option.
\<close>

theorem put_option_long_word_never_ends:
  "put_option url_option [] = None \<and> put_option (setSpaceAdd url_option 10) [] = None"
  by (simp add: render_eval url_wrap_0 url_wrap_10)

text \<open>
  Claim C4 says that \<open>parse\<close> prints the help and exits with status \<open>0\<close> whenever the
  help option is set, or nothing matched and a match is required. That is what
  \<open>parse_help_exit\<close> shows as long as \<open>printHelp\<close> returns. With \<open>url_option\<close>
  registered, \<open>printHelp\<close> never returns, for \<open>-h\<close> as for an empty command line, so
  the process does not exit; and with no option registered at all, \<open>printHelp\<close>
  reads through the end iterator of the empty deque, which is undefined behaviour.
\<close>

theorem parse_help_long_word_never_ends:
  "parse ''prog'' True (url_parser [''prog'', ''-h'']) = None
   \<and> parse ''prog'' True (url_parser [''prog'']) = None
   \<and> parse ''prog'' True (CommandLineParser [''prog''] [] []) = Some Undefined_behaviour"
proof (intro conjI)
  let ?hopt = "m_helpOpt (url_parser [])"
  have scan1: "scan_args (m_argv (url_parser [''prog'', ''-h''])) (m_options (url_parser [''prog'', ''-h''])) 1 False
      = Inr ([?hopt\<lparr>m_set := True\<rparr>, url_option], True)"
    by (simp add: example_defs' url_option_def scan_eval)
  have up1: "updateAddSpaces [?hopt\<lparr>m_set := True\<rparr>, url_option]
      = Some [setSpaceAdd (?hopt\<lparr>m_set := True\<rparr>) 10, setSpaceAdd url_option 10]"
    by (simp add: updateAddSpaces_def getArgsLength_def example_defs' url_option_def)
  show "parse ''prog'' True (url_parser [''prog'', ''-h'']) = None"
  proof (rule parse_help_never_ends [OF scan1 _ up1])
    show "isSet (url_parser [''prog'', ''-h'']\<lparr>m_options := [?hopt\<lparr>m_set := True\<rparr>, url_option]\<rparr>)
        (m_helpOpt (url_parser [''prog'', ''-h''])) \<or> \<not> True \<and> True"
      by (simp add: example_defs' query_eval)
    show "put_options [setSpaceAdd (?hopt\<lparr>m_set := True\<rparr>) 10, setSpaceAdd url_option 10]
        (cout (url_parser [''prog'', ''-h'']) @ ''Usage: '' @ ''prog'' @ '' option'' @ endl @ endl) = None"
      by (rule put_options_never_ends [of "setSpaceAdd url_option 10"])
        (simp_all add: put_option_url_never_ends)
  qed
  have scan2: "scan_args (m_argv (url_parser [''prog''])) (m_options (url_parser [''prog''])) 1 False
      = Inr ([?hopt, url_option], False)"
    by (simp add: example_defs' url_option_def scan_eval)
  have up2: "updateAddSpaces [?hopt, url_option]
      = Some [setSpaceAdd ?hopt 10, setSpaceAdd url_option 10]"
    by (simp add: updateAddSpaces_def getArgsLength_def example_defs' url_option_def)
  show "parse ''prog'' True (url_parser [''prog'']) = None"
  proof (rule parse_help_never_ends [OF scan2 _ up2])
    show "isSet (url_parser [''prog'']\<lparr>m_options := [?hopt, url_option]\<rparr>)
        (m_helpOpt (url_parser [''prog''])) \<or> \<not> False \<and> True"
      by simp
    show "put_options [setSpaceAdd ?hopt 10, setSpaceAdd url_option 10]
        (cout (url_parser [''prog'']) @ ''Usage: '' @ ''prog'' @ '' option'' @ endl @ endl) = None"
      by (rule put_options_never_ends [of "setSpaceAdd url_option 10"])
        (simp_all add: put_option_url_never_ends)
  qed
  show "parse ''prog'' True (CommandLineParser [''prog''] [] []) = Some Undefined_behaviour"
    by (simp add: parse_def printHelp_def updateAddSpaces_def CommandLineParser_def scan_eval
        query_eval)
qed

end
